theory Spec2Isabelle
  imports Main
begin

section \<open>Data model of Tasq.ts\<close>

text \<open>
  The engine of \<^verbatim>\<open>src/src/Tasq.ts\<close> (the variant with the run counter, lines 1-215).
  Items have type \<open>'a\<close>, the payload a stage forwards (\<^verbatim>\<open>data?: any\<close>) has type \<open>'d\<close>,
  callbacks are opaque values of type \<open>'c\<close> (the model never looks inside a JavaScript
  function: what a callback does is supplied from outside, as the commands of the host
  and the outcome its promise settles with), thrown values have type \<open>'e\<close>.
\<close>

text \<open>\<^verbatim>\<open>TasqCallbackResult { data?: any; break?: boolean }\<close>; an absent \<^verbatim>\<open>break\<close> is falsy.\<close>

record 'd TasqCallbackResult =
  data :: "'d option"
  break :: bool

text \<open>\<^verbatim>\<open>TasqDoneResult\<close>, \<^verbatim>\<open>TasqRunResult\<close>, \<^verbatim>\<open>TasqErrorResult\<close>: the objects \<^verbatim>\<open>finally\<close> builds.
  An optional property that is never assigned is \<open>None\<close>.\<close>

record 'a TasqDoneResult =
  dr_nth :: nat
  dr_items :: "'a list"

record ('a, 'e) TasqRunResult =
  rr_nth :: nat
  rr_items :: "'a list"
  rr_error :: "'e option"

record ('a, 'e) TasqErrorResult =
  er_nth :: nat
  er_items :: "'a list"
  er_error :: "'e option"
  er_index :: int
  er_callbackIndex :: nat

text \<open>\<^verbatim>\<open>TasqCallbackArgs { data; nth }\<close>: stage 0 is called with a backlog item, a later
  stage with \<^verbatim>\<open>result.data\<close> of the stage before it (possibly undefined).\<close>

datatype ('a, 'd) payload = Item 'a | Data "'d option"

record ('a, 'd) TasqCallbackArgs =
  arg_data :: "('a, 'd) payload"
  arg_nth :: nat

text \<open>The private fields of \<^verbatim>\<open>class Tasq\<close>; \<open>nth_t\<close> is the field \<^verbatim>\<open>nth\<close> and \<open>blocking\<close> is
  \<^verbatim>\<open>options.blocking\<close>. The accessors \<^verbatim>\<open>isRunning\<close>, \<^verbatim>\<open>getItems\<close>, \<^verbatim>\<open>getCurrent\<close>, \<^verbatim>\<open>getIndex\<close> and
  \<^verbatim>\<open>getCallbackIndex\<close> return the fields as they are. \<^verbatim>\<open>index - 1\<close> can be -1, so the index
  that \<^verbatim>\<open>finally\<close> reports is an integer.\<close>

record ('a, 'c) tasq =
  nth_t :: nat
  index :: nat
  callbackIndex :: nat
  running :: bool
  current :: "'a option"
  items :: "'a list"
  callbacks :: "'c list"
  onDone :: "'c option"
  onError :: "'c option"
  blocking :: bool

text \<open>The constructor: \<^verbatim>\<open>const { blocking = true } = options\<close>.\<close>

definition new_tasq :: "bool option \<Rightarrow> ('a, 'c) tasq" where
  "new_tasq opt =
     \<lparr>nth_t = 0, index = 0, callbackIndex = 0, running = False, current = None,
      items = [], callbacks = [], onDone = None, onError = None,
      blocking = (case opt of None \<Rightarrow> True | Some b \<Rightarrow> b)\<rparr>"


section \<open>The host: activations, awaited promises and the observable trace\<close>

text \<open>
  \<^verbatim>\<open>runAsync\<close> is an \<^verbatim>\<open>async\<close> function: it runs until its next \<^verbatim>\<open>await\<close>, is suspended there,
  and goes on when the awaited promise settles. Each call of \<^verbatim>\<open>runAsync\<close> is an activation
  with an identifier of its own (\<open>rid\<close>); a suspended activation is a frame holding the
  local variables that are live across the \<^verbatim>\<open>await\<close>:
  \<^item> \<open>AwaitStage nth callbackIndex callback\<close>: suspended at line 151 (when the local
    \<^verbatim>\<open>callbackIndex\<close> is 0) or at line 154 (otherwise);
  \<^item> \<open>AwaitFinish didError\<close>: \<^verbatim>\<open>finish\<close> suspended at line 203 or 205.
\<close>

type_synonym rid = nat

datatype 'c frame = AwaitStage nat nat 'c | AwaitFinish bool

text \<open>What an awaited callback settles with: a returned value or a thrown one. A stage
  returns \<^verbatim>\<open>TasqCallbackResult | void\<close>; \<open>None\<close> is \<^verbatim>\<open>void\<close>.\<close>

datatype ('d, 'e) outcome = Return "'d TasqCallbackResult option" | Throw 'e

text \<open>The calls the engine makes to the outside, in order: a stage callback called with
  its arguments (tagged with the activation and its local \<^verbatim>\<open>callbackIndex\<close>), the done and
  error callbacks called with their result objects, \<^verbatim>\<open>console.error\<close> called from
  \<^verbatim>\<open>finish\<close>, and the promise of \<^verbatim>\<open>runAsync\<close> resolved (\<open>None\<close> is \<^verbatim>\<open>undefined\<close>).\<close>

datatype ('a, 'd, 'c, 'e) event =
    StageCall rid nat 'c "('a, 'd) TasqCallbackArgs"
  | DoneCall rid 'c "'a TasqDoneResult"
  | ErrorCall rid 'c "('a, 'e) TasqErrorResult"
  | ConsoleError rid string 'e
  | Resolved rid "('a, 'e) TasqRunResult option"

record ('a, 'd, 'c, 'e) config =
  eng :: "('a, 'c) tasq"
  pool :: "rid \<Rightarrow> 'c frame option"
  next_rid :: rid
  log :: "('a, 'd, 'c, 'e) event list"

definition init :: "bool option \<Rightarrow> ('a, 'd, 'c, 'e) config" where
  "init opt = \<lparr>eng = new_tasq opt, pool = (\<lambda>_. None), next_rid = 0, log = []\<rparr>"

section \<open>The methods of the class\<close>

text \<open>The methods \<^verbatim>\<open>done\<close>, \<^verbatim>\<open>catch\<close>, \<^verbatim>\<open>do\<close>, \<^verbatim>\<open>finally\<close> and \<^verbatim>\<open>_clear\<close> are \<open>done_t\<close>, \<open>catch_t\<close>,
  \<open>do_t\<close>, \<open>finally_t\<close> and \<open>clear_priv\<close> here. The methods that return \<^verbatim>\<open>this\<close> return the new
  state.\<close>

definition add :: "'a list \<Rightarrow> ('a, 'c) tasq \<Rightarrow> ('a, 'c) tasq" where
  "add xs s = s\<lparr>items := items s @ xs\<rparr>"

definition done_t :: "'c \<Rightarrow> ('a, 'c) tasq \<Rightarrow> ('a, 'c) tasq" where
  "done_t callback s = s\<lparr>onDone := Some callback\<rparr>"

definition catch_t :: "'c \<Rightarrow> ('a, 'c) tasq \<Rightarrow> ('a, 'c) tasq" where
  "catch_t callback s = s\<lparr>onError := Some callback\<rparr>"

text \<open>\<^verbatim>\<open>_clear\<close> (lines 163-170): returns the removed items with the new state.\<close>

definition clear_priv :: "('a, 'c) tasq \<Rightarrow> 'a list \<times> ('a, 'c) tasq" where
  "clear_priv s =
     (let s1 = s\<lparr>index := 0\<rparr>;
          removed = items s1;
          s2 = s1\<lparr>items := []\<rparr>;
          s3 = (if \<not> running s2 then s2\<lparr>current := None\<rparr> else s2)
      in (removed, s3))"

definition clear :: "('a, 'c) tasq \<Rightarrow> ('a, 'c) tasq" where
  "clear s = snd (clear_priv s)"

text \<open>\<^verbatim>\<open>do\<close> (lines 102-109): a null first callback empties the list, whatever follows.\<close>

definition do_t :: "'c option \<Rightarrow> 'c list \<Rightarrow> ('a, 'c) tasq \<Rightarrow> ('a, 'c) tasq" where
  "do_t callback cbs s =
     s\<lparr>callbacks := (case callback of Some cb \<Rightarrow> cb # cbs | None \<Rightarrow> [])\<rparr>"

text \<open>The message of line 210; \<open>CHR 0x22\<close> is the double quote.\<close>

definition console_message :: "bool \<Rightarrow> string" where
  "console_message didError =
     ''[tasq] An error occurred within '' @ [CHR 0x22] @
     (if didError then ''error'' else ''done'') @ [CHR 0x22] @ '' callback.''"

text \<open>\<^verbatim>\<open>finish\<close> (lines 196-214) up to its \<^verbatim>\<open>await\<close>: the registered handler, if there is
  one, is called and the activation waits for it; \<^verbatim>\<open>this.onError?.(...)\<close> with no handler
  calls nothing.\<close>

definition finish ::
  "rid \<Rightarrow> 'a TasqDoneResult \<Rightarrow> ('a, 'e) TasqErrorResult \<Rightarrow> bool \<Rightarrow>
   ('a, 'd, 'c, 'e) config \<Rightarrow> ('a, 'd, 'c, 'e) config" where
  "finish r doneResult errorResult didError c =
     (if didError then
        (case onError (eng c) of
           Some h \<Rightarrow> c\<lparr>pool := (pool c)(r \<mapsto> AwaitFinish didError),
                       log := log c @ [ErrorCall r h errorResult]\<rparr>
         | None \<Rightarrow> c\<lparr>pool := (pool c)(r := None)\<rparr>)
      else
        (case onDone (eng c) of
           Some h \<Rightarrow> c\<lparr>pool := (pool c)(r \<mapsto> AwaitFinish didError),
                       log := log c @ [DoneCall r h doneResult]\<rparr>
         | None \<Rightarrow> c\<lparr>pool := (pool c)(r := None)\<rparr>))"

text \<open>\<^verbatim>\<open>finish\<close> after its \<^verbatim>\<open>await\<close>: the \<^verbatim>\<open>catch\<close> block of lines 207-213.\<close>

definition finish_settled ::
  "rid \<Rightarrow> bool \<Rightarrow> ('d, 'e) outcome \<Rightarrow> ('a, 'd, 'c, 'e) config \<Rightarrow> ('a, 'd, 'c, 'e) config" where
  "finish_settled r didError out c =
     (case out of
        Return _ \<Rightarrow> c\<lparr>pool := (pool c)(r := None)\<rparr>
      | Throw e \<Rightarrow> c\<lparr>pool := (pool c)(r := None),
                      log := log c @ [ConsoleError r (console_message didError) e]\<rparr>)"

text \<open>\<^verbatim>\<open>finally\<close> (lines 172-194). \<^verbatim>\<open>errorResult\<close> is \<^verbatim>\<open>{ ...doneResult, index, callbackIndex }\<close>:
  its \<^verbatim>\<open>error\<close> property is never assigned. The value returned is what the promise of
  \<^verbatim>\<open>runAsync\<close> resolves with. After the call of \<^verbatim>\<open>finish\<close> no field is read or written, so
  what a done or error callback does to the engine while it runs is a command of the host
  after this step.\<close>

definition finally_t ::
  "rid \<Rightarrow> nat \<Rightarrow> 'e option \<Rightarrow> bool \<Rightarrow> ('a, 'd, 'c, 'e) config \<Rightarrow> ('a, 'd, 'c, 'e) config" where
  "finally_t r n error didError c =
     (let s1 = (eng c)\<lparr>nth_t := 0, running := False\<rparr>;
          idx = int (index s1) - 1;
          cbi = callbackIndex s1;
          (its, s2) = clear_priv s1;
          doneResult = \<lparr>dr_nth = n, dr_items = its\<rparr>;
          runResult = \<lparr>rr_nth = n, rr_items = its,
                       rr_error = (if didError then error else None)\<rparr>;
          errorResult = \<lparr>er_nth = n, er_items = its, er_error = None,
                         er_index = idx, er_callbackIndex = cbi\<rparr>;
          c1 = finish r doneResult errorResult didError (c\<lparr>eng := s2\<rparr>)
      in c1\<lparr>log := log c1 @ [Resolved r (Some runResult)]\<rparr>)"

text \<open>Calling a stage and suspending on its promise (lines 151 and 154).\<close>

definition await_stage ::
  "rid \<Rightarrow> nat \<Rightarrow> nat \<Rightarrow> 'c \<Rightarrow> ('a, 'd) payload \<Rightarrow>
   ('a, 'd, 'c, 'e) config \<Rightarrow> ('a, 'd, 'c, 'e) config" where
  "await_stage r n ci cb p c =
     c\<lparr>pool := (pool c)(r \<mapsto> AwaitStage n ci cb),
       log := log c @ [StageCall r ci cb \<lparr>arg_data = p, arg_nth = n\<rparr>]\<rparr>"

text \<open>The two loops of \<^verbatim>\<open>runAsync\<close> (lines 144-157), each entered at its condition.
  \<open>loop_outer\<close> is the \<^verbatim>\<open>while\<close> of line 144 followed by line 157; \<open>loop_inner\<close> is the
  \<^verbatim>\<open>while\<close> of line 148 followed by the \<^verbatim>\<open>if\<close> of line 153 and the next round of the
  outer loop. A call of a stage ends the synchronous run of the code.\<close>

function loop_outer ::
    "rid \<Rightarrow> nat \<Rightarrow> 'd TasqCallbackResult \<Rightarrow> ('a, 'd, 'c, 'e) config \<Rightarrow> ('a, 'd, 'c, 'e) config"
  and loop_inner ::
    "rid \<Rightarrow> nat \<Rightarrow> nat \<Rightarrow> 'c \<Rightarrow> 'd TasqCallbackResult \<Rightarrow>
     ('a, 'd, 'c, 'e) config \<Rightarrow> ('a, 'd, 'c, 'e) config" where
  "loop_outer r n result c =
     (if \<not> break result \<and> callbackIndex (eng c) < length (callbacks (eng c)) then
        loop_inner r n (callbackIndex (eng c)) (callbacks (eng c) ! callbackIndex (eng c)) result
          (c\<lparr>eng := (eng c)\<lparr>callbackIndex := callbackIndex (eng c) + 1\<rparr>\<rparr>)
      else finally_t r n None False c)"
| "loop_inner r n ci cb result c =
     (if ci = 0 \<and> index (eng c) < length (items (eng c)) then
        await_stage r n ci cb (Item (items (eng c) ! index (eng c)))
          (c\<lparr>eng := (eng c)\<lparr>index := index (eng c) + 1,
                             current := Some (items (eng c) ! index (eng c))\<rparr>\<rparr>)
      else if ci > 0 \<and> \<not> break result then
        await_stage r n ci cb (Data (data result)) c
      else loop_outer r n result c)"
  by pat_completeness auto
termination
  by (relation "measure (\<lambda>x. case x of
        Inl (r, n, result, c) \<Rightarrow>
          2 * (length (callbacks (eng c)) - callbackIndex (eng c)) + 1
      | Inr (r, n, ci, cb, result, c) \<Rightarrow>
          2 * (length (callbacks (eng c)) - callbackIndex (eng c)) + 2)") auto

text \<open>\<^verbatim>\<open>result = (await callback(...)) || {}\<close>.\<close>

definition or_empty :: "'d TasqCallbackResult option \<Rightarrow> 'd TasqCallbackResult" where
  "or_empty v = (case v of Some res \<Rightarrow> res | None \<Rightarrow> \<lparr>data = None, break = False\<rparr>)"

text \<open>A suspended activation goes on with the outcome of the promise it awaits: a throw
  inside the \<^verbatim>\<open>try\<close> reaches line 159; a value is assigned to \<^verbatim>\<open>result\<close> and the loop it
  was in is re-entered at its condition (the inner one after line 151, the outer one
  after line 154).\<close>

definition resume ::
  "rid \<Rightarrow> 'c frame \<Rightarrow> ('d, 'e) outcome \<Rightarrow> ('a, 'd, 'c, 'e) config \<Rightarrow> ('a, 'd, 'c, 'e) config" where
  "resume r f out c =
     (case f of
        AwaitStage n ci cb \<Rightarrow>
          (case out of
             Throw e \<Rightarrow> finally_t r n (Some e) True c
           | Return v \<Rightarrow>
               if ci = 0 then loop_inner r n ci cb (or_empty v) c
               else loop_outer r n (or_empty v) c)
      | AwaitFinish didError \<Rightarrow> finish_settled r didError out c)"

text \<open>\<^verbatim>\<open>runAsync\<close> (lines 126-161) up to its first \<^verbatim>\<open>await\<close> or its return. The argument is
  the list of callbacks passed (\<^verbatim>\<open>typeof callback === 'function'\<close> is: the list is not
  empty).\<close>

definition runAsync :: "'c list \<Rightarrow> ('a, 'd, 'c, 'e) config \<Rightarrow> ('a, 'd, 'c, 'e) config" where
  "runAsync cbs c =
     (let r = next_rid c;
          c0 = c\<lparr>next_rid := r + 1\<rparr>;
          s0 = (case cbs of cb # rest \<Rightarrow> do_t (Some cb) rest (eng c0) | [] \<Rightarrow> eng c0);
          s1 = s0\<lparr>callbackIndex := 0\<rparr>
      in if running s1 \<and> blocking s1 then
           c0\<lparr>eng := s1, log := log c0 @ [Resolved r None]\<rparr>
         else
           let n = nth_t s1 + 1;
               s2 = s1\<lparr>nth_t := n\<rparr>;
               s3 = s2\<lparr>running := True\<rparr>;
               result = \<lparr>data = None, break = (index s3 \<ge> length (items s3))\<rparr>
           in loop_outer r n result (c0\<lparr>eng := s3\<rparr>))"

text \<open>\<^verbatim>\<open>run\<close> (lines 111-119) registers the callbacks itself and calls \<^verbatim>\<open>runAsync()\<close>.\<close>

definition run :: "'c list \<Rightarrow> ('a, 'd, 'c, 'e) config \<Rightarrow> ('a, 'd, 'c, 'e) config" where
  "run cbs c =
     runAsync []
       (case cbs of cb # rest \<Rightarrow> c\<lparr>eng := do_t (Some cb) rest (eng c)\<rparr> | [] \<Rightarrow> c)"

section \<open>Schedules\<close>

text \<open>What the host (the caller, a timer, a stage callback while it runs) can do between
  two synchronous runs of engine code: call a public method, or settle the promise an
  activation awaits. Settling an activation that awaits nothing does nothing.\<close>

datatype ('a, 'd, 'c, 'e) cmd =
    Add "'a list"
  | Clear
  | Do "'c option" "'c list"
  | Done 'c
  | Catch 'c
  | Run "'c list"
  | RunAsync "'c list"
  | Settle rid "('d, 'e) outcome"

fun step :: "('a, 'd, 'c, 'e) cmd \<Rightarrow> ('a, 'd, 'c, 'e) config \<Rightarrow> ('a, 'd, 'c, 'e) config" where
  "step (Add xs) c = c\<lparr>eng := add xs (eng c)\<rparr>"
| "step Clear c = c\<lparr>eng := clear (eng c)\<rparr>"
| "step (Do cb cbs) c = c\<lparr>eng := do_t cb cbs (eng c)\<rparr>"
| "step (Done h) c = c\<lparr>eng := done_t h (eng c)\<rparr>"
| "step (Catch h) c = c\<lparr>eng := catch_t h (eng c)\<rparr>"
| "step (Run cbs) c = run cbs c"
| "step (RunAsync cbs) c = runAsync cbs c"
| "step (Settle r out) c = (case pool c r of None \<Rightarrow> c | Some f \<Rightarrow> resume r f out c)"

definition exec ::
  "('a, 'd, 'c, 'e) cmd list \<Rightarrow> ('a, 'd, 'c, 'e) config \<Rightarrow> ('a, 'd, 'c, 'e) config" where
  "exec cmds c = fold step cmds c"


section \<open>Reading the trace\<close>

text \<open>The activation an event belongs to.\<close>

fun event_rid :: "('a, 'd, 'c, 'e) event \<Rightarrow> rid" where
  "event_rid (StageCall r ci cb args) = r"
| "event_rid (DoneCall r h res) = r"
| "event_rid (ErrorCall r h res) = r"
| "event_rid (ConsoleError r msg e) = r"
| "event_rid (Resolved r res) = r"

text \<open>The run number an event shows to the outside, if it shows one.\<close>

fun event_nth :: "('a, 'd, 'c, 'e) event \<Rightarrow> nat option" where
  "event_nth (StageCall r ci cb args) = Some (arg_nth args)"
| "event_nth (DoneCall r h res) = Some (dr_nth res)"
| "event_nth (ErrorCall r h res) = Some (er_nth res)"
| "event_nth (ConsoleError r msg e) = None"
| "event_nth (Resolved r res) = map_option rr_nth res"

fun is_StageCall :: "('a, 'd, 'c, 'e) event \<Rightarrow> bool" where
  "is_StageCall (StageCall r ci cb args) = True"
| "is_StageCall ev = False"

text \<open>A call of the done callback or of the error callback.\<close>

fun is_report :: "('a, 'd, 'c, 'e) event \<Rightarrow> bool" where
  "is_report (DoneCall r h res) = True"
| "is_report (ErrorCall r h res) = True"
| "is_report ev = False"

text \<open>The events added between two configurations, and the events of one activation.\<close>

definition new_events ::
  "('a, 'd, 'c, 'e) config \<Rightarrow> ('a, 'd, 'c, 'e) config \<Rightarrow> ('a, 'd, 'c, 'e) event list" where
  "new_events c c' = drop (length (log c)) (log c')"

definition events_of :: "rid \<Rightarrow> ('a, 'd, 'c, 'e) event list \<Rightarrow> ('a, 'd, 'c, 'e) event list" where
  "events_of r evs = filter (\<lambda>ev. event_rid ev = r) evs"

text \<open>An activation is inside its run while it awaits a stage; once \<^verbatim>\<open>finally\<close> has run it
  awaits at most its done or error callback.\<close>

definition awaits_stage :: "('a, 'd, 'c, 'e) config \<Rightarrow> rid \<Rightarrow> bool" where
  "awaits_stage c r = (case pool c r of Some (AwaitStage n ci cb) \<Rightarrow> True | _ \<Rightarrow> False)"

text \<open>What \<^verbatim>\<open>finish\<close> calls for a run that ends in engine state \<open>s\<close> (the state on entry to
  \<^verbatim>\<open>finally\<close>), and the handler it awaits.\<close>

definition report ::
  "rid \<Rightarrow> nat \<Rightarrow> bool \<Rightarrow> ('a, 'c) tasq \<Rightarrow> ('a, 'd, 'c, 'e) event list" where
  "report r n didError s =
     (if didError then
        (case onError s of
           Some h \<Rightarrow> [ErrorCall r h \<lparr>er_nth = n, er_items = items s, er_error = None,
                       er_index = int (index s) - 1, er_callbackIndex = callbackIndex s\<rparr>]
         | None \<Rightarrow> [])
      else
        (case onDone s of
           Some h \<Rightarrow> [DoneCall r h \<lparr>dr_nth = n, dr_items = items s\<rparr>]
         | None \<Rightarrow> []))"

definition handler :: "bool \<Rightarrow> ('a, 'c) tasq \<Rightarrow> 'c option" where
  "handler didError s = (if didError then onError s else onDone s)"

text \<open>The activation a command is about: the one it settles, or the one it would create.\<close>

fun cmd_rid :: "('a, 'd, 'c, 'e) config \<Rightarrow> ('a, 'd, 'c, 'e) cmd \<Rightarrow> rid" where
  "cmd_rid c (Settle r out) = r"
| "cmd_rid c cmd = next_rid c"

fun is_run :: "('a, 'd, 'c, 'e) cmd \<Rightarrow> bool" where
  "is_run (Run cbs) = True"
| "is_run (RunAsync cbs) = True"
| "is_run cmd = False"

text \<open>What holds of every configuration a schedule can reach from a new engine: awaited
  activations and logged events have identifiers already handed out, and the run counter
  is 0 whenever no run is marked active.\<close>

definition inv :: "('a, 'd, 'c, 'e) config \<Rightarrow> bool" where
  "inv c \<longleftrightarrow>
     (\<forall>r. pool c r \<noteq> None \<longrightarrow> r < next_rid c) \<and>
     (\<forall>ev\<in>set (log c). event_rid ev < next_rid c) \<and>
     (\<not> running (eng c) \<longrightarrow> nth_t (eng c) = 0)"

text \<open>Two configurations of an engine in the default (blocking) mode, in the middle of a run,
  for the examples: \<open>mid_stage0\<close> awaits stage 0 on the first of two items, \<open>mid_stage1\<close>
  awaits stage 1 after stage 0 has returned for both.\<close>

definition mid_stage0 :: "(nat, nat, string, string) config" where
  "mid_stage0 =
     exec [Add [1, 2], Done ''onDone'', Catch ''onError'', Run [''s0'', ''s1'']] (init None)"

definition mid_stage1 :: "(nat, nat, string, string) config" where
  "mid_stage1 =
     exec [Add [1, 2], Done ''onDone'', Catch ''onError'', Run [''s0'', ''s1''],
           Settle 0 (Return None), Settle 0 (Return (Some \<lparr>data = Some 7, break = False\<rparr>))]
       (init None)"

text \<open>An engine whose first run has finalized and that holds a new item.\<close>

definition after_first_run :: "(nat, nat, string, string) config" where
  "after_first_run =
     exec [Add [1], Done ''onDone'', Run [''s0''], Settle 0 (Return None), Add [2]] (init None)"

section \<open>One run and the calls interleaved with it\<close>



fun adds :: "('a, 'd, 'c, 'e) cmd list \<Rightarrow> 'a list" where
  "adds [] = []"
| "adds (Add xs # cmds) = xs @ adds cmds"
| "adds (cmd # cmds) = adds cmds"








text \<open>An idle engine holding two items, with both handlers registered, and two schedules
  for a run of it: the live feed of the specification (an item is added while stage 0 is
  awaited), and a run during which \<^verbatim>\<open>clear\<close> is called.\<close>

definition live_feed_start :: "(nat, nat, string, string) config" where
  "live_feed_start = exec [Add [1, 2], Done ''onDone'', Catch ''onError''] (init None)"



section \<open>Blocking mode\<close>

text \<open>In blocking mode at most one activation is inside its run, the engine is marked
  running exactly while there is one, and the backlog cursor is 0 otherwise.\<close>

definition single_run :: "('a, 'd, 'c, 'e) config \<Rightarrow> bool" where
  "single_run c \<longleftrightarrow>
     (\<forall>r r'. awaits_stage c r \<and> awaits_stage c r' \<longrightarrow> r = r') \<and>
     (running (eng c) \<longleftrightarrow> (\<exists>r. awaits_stage c r)) \<and>
     (\<not> running (eng c) \<longrightarrow> index (eng c) = 0)"

text \<open>The items stage 0 has been called with, in the order of the calls.\<close>

fun polled :: "('a, 'd, 'c, 'e) event list \<Rightarrow> 'a list" where
  "polled [] = []"
| "polled (StageCall r ci cb args # evs) =
     (case arg_data args of Item x \<Rightarrow> x # polled evs | Data d \<Rightarrow> polled evs)"
| "polled (ev # evs) = polled evs"

text \<open>The commands of a schedule in which the run \<open>r\<close> is fed and \<^verbatim>\<open>run\<close> or \<^verbatim>\<open>runAsync\<close> is
  called again: calls of \<^verbatim>\<open>add\<close>, \<^verbatim>\<open>run\<close> and \<^verbatim>\<open>runAsync\<close>, and returns of the stages \<open>r\<close>
  awaits.\<close>

fun reentrant :: "rid \<Rightarrow> ('a, 'd, 'c, 'e) cmd \<Rightarrow> bool" where
  "reentrant r (Add xs) = True"
| "reentrant r (Run cbs) = True"
| "reentrant r (RunAsync cbs) = True"
| "reentrant r (Settle r' (Return v)) = (r' = r)"
| "reentrant r cmd = False"

text \<open>The run \<open>r\<close> of a blocking engine, started in \<open>c0\<close> with the cursor at 0, while it is
  active after the commands \<open>cmds\<close>: every other activation has only resolved with
  \<^verbatim>\<open>undefined\<close>, and stage 0 has been called with the items before the cursor.\<close>

definition run_live ::
  "('a, 'd, 'c, 'e) config \<Rightarrow> rid \<Rightarrow> ('a, 'd, 'c, 'e) cmd list \<Rightarrow>
   ('a, 'd, 'c, 'e) config \<Rightarrow> bool" where
  "run_live c0 r cmds c \<longleftrightarrow>
     awaits_stage c r \<and> running (eng c) \<and> blocking (eng c) \<and> r < next_rid c \<and>
     items (eng c) = items (eng c0) @ adds cmds \<and> index (eng c) \<le> length (items (eng c)) \<and>
     (\<exists>evs. log c = log c0 @ evs \<and> filter is_report evs = [] \<and>
        filter (\<lambda>ev. event_rid ev \<noteq> r) evs = map (\<lambda>r'. Resolved r' None) [Suc r ..< next_rid c] \<and>
        polled evs = take (index (eng c)) (items (eng c)))"

text \<open>A schedule for a run of \<open>live_feed_start\<close> with two stages, during which \<^verbatim>\<open>run\<close> and
  \<^verbatim>\<open>runAsync\<close> are called again and an item is added.\<close>

definition reentry_schedule :: "(nat, nat, string, string) cmd list" where
  "reentry_schedule =
     [Run [], Settle 0 (Return None), Add [3], Settle 0 (Return None), Settle 0 (Return None),
      RunAsync []]"

section \<open>Basic facts about the methods\<close>

declare loop_outer.simps [simp del] loop_inner.simps [simp del]

lemma eng_finally_t [simp]:
  "eng (finally_t r n e d c) =
     (eng c)\<lparr>nth_t := 0, running := False, index := 0, items := [], current := None\<rparr>"
  by (simp add: finally_t_def finish_def clear_priv_def Let_def split: option.splits)

lemma log_finally_t [simp]:
  "log (finally_t r n e d c) =
     log c @ report r n d (eng c) @
     [Resolved r (Some \<lparr>rr_nth = n, rr_items = items (eng c),
                        rr_error = (if d then e else None)\<rparr>)]"
  by (simp add: finally_t_def finish_def clear_priv_def report_def Let_def split: option.splits)

lemma pool_finally_t [simp]:
  "pool (finally_t r n e d c) =
     (pool c)(r := (case handler d (eng c) of Some h \<Rightarrow> Some (AwaitFinish d) | None \<Rightarrow> None))"
  by (simp add: finally_t_def finish_def clear_priv_def handler_def Let_def split: option.splits)

lemma next_rid_finally_t [simp]: "next_rid (finally_t r n e d c) = next_rid c"
  by (simp add: finally_t_def finish_def clear_priv_def Let_def split: option.splits)

lemma await_stage_simps [simp]:
  "eng (await_stage r n ci cb p c) = eng c"
  "pool (await_stage r n ci cb p c) = (pool c)(r \<mapsto> AwaitStage n ci cb)"
  "next_rid (await_stage r n ci cb p c) = next_rid c"
  "log (await_stage r n ci cb p c) = log c @ [StageCall r ci cb \<lparr>arg_data = p, arg_nth = n\<rparr>]"
  by (simp_all add: await_stage_def)

text \<open>The outer loop without recursion: between two calls of a stage it goes round at most
  twice (once more when stage 0 finds no item to poll).\<close>

lemma loop_outer_eq:
  "loop_outer r n res c =
     (if break res \<or> length (callbacks (eng c)) \<le> callbackIndex (eng c) then
        finally_t r n None False c
      else if 0 < callbackIndex (eng c) then
        await_stage r n (callbackIndex (eng c)) (callbacks (eng c) ! callbackIndex (eng c))
          (Data (data res)) (c\<lparr>eng := (eng c)\<lparr>callbackIndex := callbackIndex (eng c) + 1\<rparr>\<rparr>)
      else if index (eng c) < length (items (eng c)) then
        await_stage r n 0 (callbacks (eng c) ! 0) (Item (items (eng c) ! index (eng c)))
          (c\<lparr>eng := (eng c)\<lparr>callbackIndex := 1, index := index (eng c) + 1,
                             current := Some (items (eng c) ! index (eng c))\<rparr>\<rparr>)
      else if 1 < length (callbacks (eng c)) then
        await_stage r n 1 (callbacks (eng c) ! 1) (Data (data res))
          (c\<lparr>eng := (eng c)\<lparr>callbackIndex := 2\<rparr>\<rparr>)
      else finally_t r n None False (c\<lparr>eng := (eng c)\<lparr>callbackIndex := 1\<rparr>\<rparr>))"
  by (simp add: loop_outer.simps loop_inner.simps)

lemma loop_inner_0_eq:
  "loop_inner r n 0 cb res c =
     (if index (eng c) < length (items (eng c)) then
        await_stage r n 0 cb (Item (items (eng c) ! index (eng c)))
          (c\<lparr>eng := (eng c)\<lparr>index := index (eng c) + 1,
                             current := Some (items (eng c) ! index (eng c))\<rparr>\<rparr>)
      else loop_outer r n res c)"
  by (simp add: loop_inner.simps)


text \<open>\<^verbatim>\<open>runAsync\<close> when the guard of line 134 drops the call, and when it does not. The
  callbacks registered after line 132 are the ones passed, if any were passed.\<close>

lemma runAsync_dropped:
  "running (eng c) \<Longrightarrow> blocking (eng c) \<Longrightarrow>
   runAsync cbs c =
     c\<lparr>next_rid := next_rid c + 1,
       eng := (eng c)\<lparr>callbacks := (if cbs = [] then callbacks (eng c) else cbs),
                       callbackIndex := 0\<rparr>,
       log := log c @ [Resolved (next_rid c) None]\<rparr>"
  by (cases cbs) (simp_all add: runAsync_def do_t_def Let_def)

lemma runAsync_accepted:
  "\<not> (running (eng c) \<and> blocking (eng c)) \<Longrightarrow>
   runAsync cbs c =
     loop_outer (next_rid c) (nth_t (eng c) + 1)
       \<lparr>data = None, break = (length (items (eng c)) \<le> index (eng c))\<rparr>
       (c\<lparr>next_rid := next_rid c + 1,
          eng := (eng c)\<lparr>callbacks := (if cbs = [] then callbacks (eng c) else cbs),
                          callbackIndex := 0, nth_t := nth_t (eng c) + 1, running := True\<rparr>\<rparr>)"
  by (cases cbs) (auto simp add: runAsync_def do_t_def Let_def)

lemma run_eq_runAsync: "run cbs c = runAsync cbs c"
  by (cases cbs) (simp_all add: run_def runAsync_def do_t_def Let_def)

section \<open>Resuming, frames and the reachable configurations\<close>


lemma resume_throw [simp]:
  "resume r (AwaitStage n ci cb) (Throw e) c = finally_t r n (Some e) True c"
  by (simp add: resume_def)

lemma resume_return_0 [simp]:
  "resume r (AwaitStage n 0 cb) (Return v) c = loop_inner r n 0 cb (or_empty v) c"
  by (simp add: resume_def)

lemma resume_return_later [simp]:
  "0 < ci \<Longrightarrow> resume r (AwaitStage n ci cb) (Return v) c = loop_outer r n (or_empty v) c"
  by (simp add: resume_def)

lemma resume_finish [simp]:
  "resume r (AwaitFinish d) out c = finish_settled r d out c"
  by (simp add: resume_def)

lemma report_rid: "ev \<in> set (report r n d s) \<Longrightarrow> event_rid ev = r"
  by (auto simp: report_def split: if_splits option.splits)

lemma loop_outer_log:
  "\<exists>evs. log (loop_outer r n res c) = log c @ evs \<and> (\<forall>ev\<in>set evs. event_rid ev = r)"
  by (auto simp: loop_outer_eq report_rid)

lemma loop_inner_0_log:
  "\<exists>evs. log (loop_inner r n 0 cb res c) = log c @ evs \<and> (\<forall>ev\<in>set evs. event_rid ev = r)"
  using loop_outer_log [of r n res c] by (auto simp: loop_inner_0_eq)

lemma finish_settled_simps [simp]:
  "eng (finish_settled r d out c) = eng c"
  "next_rid (finish_settled r d out c) = next_rid c"
  "pool (finish_settled r d out c) = (pool c)(r := None)"
  "log (finish_settled r d out c) =
     log c @ (case out of Return v \<Rightarrow> [] | Throw e \<Rightarrow> [ConsoleError r (console_message d) e])"
  by (simp_all add: finish_settled_def split: outcome.splits)

lemma resume_log:
  "\<exists>evs. log (resume r f out c) = log c @ evs \<and> (\<forall>ev\<in>set evs. event_rid ev = r)"
proof (cases f)
  case (AwaitStage n ci cb)
  show ?thesis
  proof (cases out)
    case (Return v)
    show ?thesis
    proof (cases "ci = 0")
      case True
      with AwaitStage Return show ?thesis
        using loop_inner_0_log [of r n cb "or_empty v" c] by simp
    next
      case False
      with AwaitStage Return show ?thesis
        using loop_outer_log [of r n "or_empty v" c] by simp
    qed
  next
    case (Throw e)
    with AwaitStage show ?thesis by (auto simp: report_rid)
  qed
next
  case (AwaitFinish d)
  then show ?thesis by (auto split: outcome.splits)
qed

lemma runAsync_log:
  "\<exists>evs. log (runAsync cbs c) = log c @ evs \<and> (\<forall>ev\<in>set evs. event_rid ev = next_rid c)"
proof (cases "running (eng c) \<and> blocking (eng c)")
  case True
  then show ?thesis by (simp add: runAsync_dropped)
next
  case False
  then show ?thesis
    using loop_outer_log [of "next_rid c" "nth_t (eng c) + 1"
        "\<lparr>data = None, break = (length (items (eng c)) \<le> index (eng c))\<rparr>"
        "c\<lparr>next_rid := next_rid c + 1,
          eng := (eng c)\<lparr>callbacks := (if cbs = [] then callbacks (eng c) else cbs),
                          callbackIndex := 0, nth_t := nth_t (eng c) + 1, running := True\<rparr>\<rparr>"]
    by (simp add: runAsync_accepted)
qed

lemma step_log:
  "\<exists>evs. log (step cmd c) = log c @ evs \<and> (\<forall>ev\<in>set evs. event_rid ev = cmd_rid c cmd)"
proof (cases cmd)
  case (Settle r out)
  then show ?thesis using resume_log [of r _ out c] by (auto split: option.splits)
qed (simp_all add: run_eq_runAsync runAsync_log)

lemma loop_outer_frame [simp]:
  "next_rid (loop_outer r n res c) = next_rid c"
  "r' \<noteq> r \<Longrightarrow> pool (loop_outer r n res c) r' = pool c r'"
  by (simp_all add: loop_outer_eq)

lemma loop_inner_0_frame [simp]:
  "next_rid (loop_inner r n 0 cb res c) = next_rid c"
  "r' \<noteq> r \<Longrightarrow> pool (loop_inner r n 0 cb res c) r' = pool c r'"
  by (simp_all add: loop_inner_0_eq)

lemma resume_frame [simp]:
  "next_rid (resume r f out c) = next_rid c"
  "r' \<noteq> r \<Longrightarrow> pool (resume r f out c) r' = pool c r'"
  by (cases f; cases out; auto simp: resume_def)+

lemma runAsync_frame:
  "next_rid (runAsync cbs c) = next_rid c + 1"
  "r' \<noteq> next_rid c \<Longrightarrow> pool (runAsync cbs c) r' = pool c r'"
  by (cases "running (eng c) \<and> blocking (eng c)"; simp add: runAsync_dropped runAsync_accepted)+

lemma step_next_rid:
  "next_rid (step cmd c) = (if is_run cmd then next_rid c + 1 else next_rid c)"
  by (cases cmd) (simp_all add: run_eq_runAsync runAsync_frame split: option.splits)

lemma step_pool_frame:
  "r \<noteq> cmd_rid c cmd \<Longrightarrow> pool (step cmd c) r = pool c r"
  by (cases cmd) (simp_all add: run_eq_runAsync runAsync_frame split: option.splits)

lemma step_events_of_other:
  assumes "r \<noteq> cmd_rid c cmd"
  shows "events_of r (log (step cmd c)) = events_of r (log c)"
proof -
  obtain evs where "log (step cmd c) = log c @ evs" "\<forall>ev\<in>set evs. event_rid ev = cmd_rid c cmd"
    using step_log [of cmd c] by blast
  with assms show ?thesis by (simp add: events_of_def filter_empty_conv)
qed

text \<open>Once an activation no longer awaits a stage, no stage and no done or error callback
  is called for it again.\<close>

lemma finalized_step:
  assumes "r < next_rid c" "\<not> awaits_stage c r"
  shows "filter is_StageCall (events_of r (log (step cmd c))) = filter is_StageCall (events_of r (log c))
       \<and> filter is_report (events_of r (log (step cmd c))) = filter is_report (events_of r (log c))
       \<and> \<not> awaits_stage (step cmd c) r \<and> r < next_rid (step cmd c)"
proof (cases "r = cmd_rid c cmd")
  case False
  then show ?thesis
    using assms by (simp add: step_events_of_other step_pool_frame awaits_stage_def step_next_rid)
next
  case True
  with assms obtain out where cmd: "cmd = Settle r out"
    by (cases cmd) auto
  show ?thesis
  proof (cases "pool c r")
    case None
    with cmd assms show ?thesis by simp
  next
    case (Some f)
    with assms obtain d where "f = AwaitFinish d"
      by (cases f) (auto simp: awaits_stage_def)
    with Some cmd assms show ?thesis
      by (auto simp: awaits_stage_def events_of_def split: outcome.splits)
  qed
qed

lemma finalized_exec:
  "r < next_rid c \<Longrightarrow> \<not> awaits_stage c r \<Longrightarrow>
   filter is_StageCall (events_of r (log (exec cmds c))) = filter is_StageCall (events_of r (log c))
   \<and> filter is_report (events_of r (log (exec cmds c))) = filter is_report (events_of r (log c))
   \<and> \<not> awaits_stage (exec cmds c) r \<and> r < next_rid (exec cmds c)"
proof (induction cmds arbitrary: c)
  case Nil
  then show ?case by (simp add: exec_def)
next
  case (Cons cmd cmds)
  from finalized_step [OF Cons.prems, of cmd]
  have st: "filter is_StageCall (events_of r (log (step cmd c))) = filter is_StageCall (events_of r (log c))"
    "filter is_report (events_of r (log (step cmd c))) = filter is_report (events_of r (log c))"
    "\<not> awaits_stage (step cmd c) r" "r < next_rid (step cmd c)"
    by simp_all
  from Cons.IH [OF st(4) st(3)] st(1,2) show ?case
    by (simp add: exec_def)
qed

text \<open>An activation that awaits nothing is never heard of again.\<close>

lemma dead_step:
  assumes "r < next_rid c" "pool c r = None"
  shows "events_of r (log (step cmd c)) = events_of r (log c)
       \<and> pool (step cmd c) r = None \<and> r < next_rid (step cmd c)"
proof (cases "r = cmd_rid c cmd")
  case False
  then show ?thesis
    using assms by (simp add: step_events_of_other step_pool_frame step_next_rid)
next
  case True
  with assms obtain out where cmd: "cmd = Settle r out"
    by (cases cmd) auto
  with assms show ?thesis by simp
qed

lemma dead_exec:
  "r < next_rid c \<Longrightarrow> pool c r = None \<Longrightarrow>
   events_of r (log (exec cmds c)) = events_of r (log c)
   \<and> pool (exec cmds c) r = None \<and> r < next_rid (exec cmds c)"
proof (induction cmds arbitrary: c)
  case Nil
  then show ?case by (simp add: exec_def)
next
  case (Cons cmd cmds)
  from dead_step [OF Cons.prems, of cmd]
  have st: "events_of r (log (step cmd c)) = events_of r (log c)"
    "pool (step cmd c) r = None" "r < next_rid (step cmd c)"
    by simp_all
  from Cons.IH [OF st(3) st(2)] st(1) show ?case
    by (simp add: exec_def)
qed

lemma inv_init: "inv (init opt)"
  by (simp add: inv_def init_def new_tasq_def)

lemma loop_outer_run_state:
  "(running (eng (loop_outer r n res c)) = running (eng c) \<and>
    nth_t (eng (loop_outer r n res c)) = nth_t (eng c)) \<or>
   (\<not> running (eng (loop_outer r n res c)) \<and> nth_t (eng (loop_outer r n res c)) = 0)"
  by (simp add: loop_outer_eq)

lemma loop_inner_0_run_state:
  "(running (eng (loop_inner r n 0 cb res c)) = running (eng c) \<and>
    nth_t (eng (loop_inner r n 0 cb res c)) = nth_t (eng c)) \<or>
   (\<not> running (eng (loop_inner r n 0 cb res c)) \<and> nth_t (eng (loop_inner r n 0 cb res c)) = 0)"
  using loop_outer_run_state [of r n res c] by (simp add: loop_inner_0_eq)

lemma resume_run_state:
  "(running (eng (resume r f out c)) = running (eng c) \<and>
    nth_t (eng (resume r f out c)) = nth_t (eng c)) \<or>
   (\<not> running (eng (resume r f out c)) \<and> nth_t (eng (resume r f out c)) = 0)"
proof (cases f)
  case (AwaitStage n ci cb)
  show ?thesis
  proof (cases out)
    case (Return v)
    with AwaitStage show ?thesis
      using loop_inner_0_run_state [of r n cb "or_empty v" c]
        loop_outer_run_state [of r n "or_empty v" c]
      by (cases "ci = 0") simp_all
  next
    case (Throw e)
    with AwaitStage show ?thesis by simp
  qed
next
  case (AwaitFinish d)
  then show ?thesis by simp
qed

lemma runAsync_run_state:
  "\<not> running (eng c) \<longrightarrow> nth_t (eng c) = 0 \<Longrightarrow>
   \<not> running (eng (runAsync cbs c)) \<longrightarrow> nth_t (eng (runAsync cbs c)) = 0"
proof (cases "running (eng c) \<and> blocking (eng c)")
  case True
  then show ?thesis by (simp add: runAsync_dropped)
next
  case False
  then show ?thesis
    using loop_outer_run_state [of "next_rid c" "nth_t (eng c) + 1"
        "\<lparr>data = None, break = (length (items (eng c)) \<le> index (eng c))\<rparr>"
        "c\<lparr>next_rid := next_rid c + 1,
          eng := (eng c)\<lparr>callbacks := (if cbs = [] then callbacks (eng c) else cbs),
                          callbackIndex := 0, nth_t := nth_t (eng c) + 1, running := True\<rparr>\<rparr>"]
    by (auto simp add: runAsync_accepted)
qed

lemma step_run_state:
  assumes "\<not> running (eng c) \<longrightarrow> nth_t (eng c) = 0"
  shows "\<not> running (eng (step cmd c)) \<longrightarrow> nth_t (eng (step cmd c)) = 0"
proof (cases cmd)
  case (Settle r out)
  show ?thesis
  proof (cases "pool c r")
    case None
    with Settle assms show ?thesis by simp
  next
    case (Some f)
    with Settle assms resume_run_state [of r f out c] show ?thesis by auto
  qed
qed (use assms in \<open>simp_all add: run_eq_runAsync runAsync_run_state add_def clear_def
      clear_priv_def do_t_def done_t_def catch_t_def Let_def\<close>)

lemma step_log_same:
  "\<not> is_run cmd \<Longrightarrow> pool c (cmd_rid c cmd) = None \<Longrightarrow> log (step cmd c) = log c"
  by (cases cmd) simp_all

lemma inv_step:
  assumes "inv c"
  shows "inv (step cmd c)"
proof -
  have nr: "next_rid c \<le> next_rid (step cmd c)"
    by (simp add: step_next_rid)
  have p: "r < next_rid (step cmd c)" if "pool (step cmd c) r \<noteq> None" for r
  proof (cases "r = cmd_rid c cmd")
    case False
    with that assms nr show ?thesis
      by (auto simp: step_pool_frame inv_def)
  next
    case True
    show ?thesis
    proof (cases "is_run cmd")
      case True
      with \<open>r = cmd_rid c cmd\<close> show ?thesis
        by (cases cmd) (simp_all add: run_eq_runAsync runAsync_frame)
    next
      case False
      with \<open>r = cmd_rid c cmd\<close> that assms nr show ?thesis
        by (cases cmd) (auto simp: inv_def split: option.splits)
    qed
  qed
  have l: "event_rid ev < next_rid (step cmd c)" if "ev \<in> set (log (step cmd c))" for ev
  proof -
    obtain evs where evs: "log (step cmd c) = log c @ evs"
      "\<forall>ev\<in>set evs. event_rid ev = cmd_rid c cmd"
      using step_log [of cmd c] by blast
    show ?thesis
    proof (cases "ev \<in> set (log c)")
      case True
      with assms nr show ?thesis by (auto simp: inv_def)
    next
      case False
      with that evs have ev: "event_rid ev = cmd_rid c cmd" "log (step cmd c) \<noteq> log c"
        by auto
      show ?thesis
      proof (cases "is_run cmd")
        case True
        with ev show ?thesis by (cases cmd) (simp_all add: run_eq_runAsync runAsync_frame)
      next
        case False
        with ev step_log_same [of cmd c] have "pool c (cmd_rid c cmd) \<noteq> None"
          by blast
        with assms ev nr show ?thesis by (auto simp: inv_def)
      qed
    qed
  qed
  from p l step_run_state [of c cmd] assms show ?thesis
    by (auto simp: inv_def)
qed

lemma inv_exec: "inv c \<Longrightarrow> inv (exec cmds c)"
  by (induction cmds arbitrary: c) (simp_all add: exec_def inv_step)

lemma inv_reachable: "inv (exec cmds (init opt))"
  by (simp add: inv_exec inv_init)

section \<open>Facts used by the claims\<close>

lemma new_events_append [simp]: "log c' = log c @ evs \<Longrightarrow> new_events c c' = evs"
  by (simp add: new_events_def)

lemma mid_stage0_eq:
  "mid_stage0 =
     \<lparr>eng = \<lparr>nth_t = 1, index = 1, callbackIndex = 1, running = True, current = Some 1,
              items = [1, 2], callbacks = [''s0'', ''s1''], onDone = Some ''onDone'',
              onError = Some ''onError'', blocking = True\<rparr>,
      pool = (\<lambda>_. None)(0 \<mapsto> AwaitStage 1 0 ''s0''), next_rid = 1,
      log = [StageCall 0 0 ''s0'' \<lparr>arg_data = Item 1, arg_nth = 1\<rparr>]\<rparr>"
  by (simp add: mid_stage0_def exec_def init_def new_tasq_def add_def done_t_def catch_t_def
      run_eq_runAsync runAsync_accepted loop_outer_eq)

lemma mid_stage1_eq:
  "mid_stage1 =
     \<lparr>eng = \<lparr>nth_t = 1, index = 2, callbackIndex = 2, running = True, current = Some 2,
              items = [1, 2], callbacks = [''s0'', ''s1''], onDone = Some ''onDone'',
              onError = Some ''onError'', blocking = True\<rparr>,
      pool = (\<lambda>_. None)(0 \<mapsto> AwaitStage 1 1 ''s1''), next_rid = 1,
      log = [StageCall 0 0 ''s0'' \<lparr>arg_data = Item 1, arg_nth = 1\<rparr>,
             StageCall 0 0 ''s0'' \<lparr>arg_data = Item 2, arg_nth = 1\<rparr>,
             StageCall 0 1 ''s1'' \<lparr>arg_data = Data (Some 7), arg_nth = 1\<rparr>]\<rparr>"
  by (simp add: mid_stage1_def exec_def init_def new_tasq_def add_def done_t_def catch_t_def
      run_eq_runAsync runAsync_accepted loop_outer_eq loop_inner_0_eq or_empty_def)

lemma after_first_run_eq:
  "after_first_run =
     \<lparr>eng = \<lparr>nth_t = 0, index = 0, callbackIndex = 1, running = False, current = None,
              items = [2], callbacks = [''s0''], onDone = Some ''onDone'',
              onError = None, blocking = True\<rparr>,
      pool = (\<lambda>_. None)(0 \<mapsto> AwaitFinish False), next_rid = 1,
      log = [StageCall 0 0 ''s0'' \<lparr>arg_data = Item 1, arg_nth = 1\<rparr>,
             DoneCall 0 ''onDone'' \<lparr>dr_nth = 1, dr_items = [1]\<rparr>,
             Resolved 0 (Some \<lparr>rr_nth = 1, rr_items = [1], rr_error = None\<rparr>)]\<rparr>"
  by (simp add: after_first_run_def exec_def init_def new_tasq_def add_def done_t_def
      run_eq_runAsync runAsync_accepted loop_outer_eq loop_inner_0_eq or_empty_def report_def
      handler_def)

lemma report_nth: "ev \<in> set (report r n d s) \<Longrightarrow> event_nth ev = Some n"
  by (auto simp: report_def split: if_splits option.splits)

section \<open>The phases of one run\<close>

lemma exec_snoc: "exec (cmds @ [cmd]) c = step cmd (exec cmds c)"
  by (simp add: exec_def)

lemma exec_Cons: "exec (cmd # cmds) c = exec cmds (step cmd c)"
  by (simp add: exec_def)





lemma filter_report_report [simp]: "filter is_report (report r n d s) = report r n d s"
  by (simp add: report_def split: option.splits)

lemma awaits_stage_finally [simp]: "\<not> awaits_stage (finally_t r n e d c) r"
  by (simp add: awaits_stage_def split: option.splits)

lemma report_done_cong [simp]:
  "report r n False (s\<lparr>callbackIndex := k\<rparr>) = report r n False s"
  by (simp add: report_def split: option.splits)


lemma loop_outer_effect:
  "(\<exists>ci' cb' ev. pool (loop_outer r n res c) r = Some (AwaitStage n ci' cb') \<and>
       log (loop_outer r n res c) = log c @ [ev] \<and> is_StageCall ev \<and>
       items (eng (loop_outer r n res c)) = items (eng c) \<and>
       onDone (eng (loop_outer r n res c)) = onDone (eng c) \<and>
       onError (eng (loop_outer r n res c)) = onError (eng c)) \<or>
   (\<exists>rr. \<not> awaits_stage (loop_outer r n res c) r \<and>
       log (loop_outer r n res c) = log c @ report r n False (eng c) @ [Resolved r rr] \<and>
       items (eng (loop_outer r n res c)) = [])"
  by (simp add: loop_outer_eq)

lemma loop_inner_0_effect:
  "(\<exists>ci' cb' ev. pool (loop_inner r n 0 cb res c) r = Some (AwaitStage n ci' cb') \<and>
       log (loop_inner r n 0 cb res c) = log c @ [ev] \<and> is_StageCall ev \<and>
       items (eng (loop_inner r n 0 cb res c)) = items (eng c) \<and>
       onDone (eng (loop_inner r n 0 cb res c)) = onDone (eng c) \<and>
       onError (eng (loop_inner r n 0 cb res c)) = onError (eng c)) \<or>
   (\<exists>rr. \<not> awaits_stage (loop_inner r n 0 cb res c) r \<and>
       log (loop_inner r n 0 cb res c) = log c @ report r n False (eng c) @ [Resolved r rr] \<and>
       items (eng (loop_inner r n 0 cb res c)) = [])"
  using loop_outer_effect [of r n res c] by (simp add: loop_inner_0_eq)

lemma settle_effect:
  assumes "pool c r = Some (AwaitStage n ci cb)"
  shows
  "(\<exists>ci' cb' ev. pool (step (Settle r out) c) r = Some (AwaitStage n ci' cb') \<and>
       log (step (Settle r out) c) = log c @ [ev] \<and> is_StageCall ev \<and>
       items (eng (step (Settle r out) c)) = items (eng c) \<and>
       onDone (eng (step (Settle r out) c)) = onDone (eng c) \<and>
       onError (eng (step (Settle r out) c)) = onError (eng c)) \<or>
   (\<exists>d rr. \<not> awaits_stage (step (Settle r out) c) r \<and>
       log (step (Settle r out) c) = log c @ report r n d (eng c) @ [Resolved r rr] \<and>
       d = (\<exists>e. out = Throw e) \<and>
       items (eng (step (Settle r out) c)) = [])" (is "?A \<or> ?B")
proof (cases out)
  case (Throw e)
  have "\<exists>d rr. \<not> awaits_stage (step (Settle r out) c) r \<and>
       log (step (Settle r out) c) = log c @ report r n d (eng c) @ [Resolved r rr] \<and>
       d = (\<exists>e. out = Throw e) \<and>
       items (eng (step (Settle r out) c)) = []"
    apply (rule exI [of _ True])
    using assms Throw by simp
  then show ?thesis ..
next
  case (Return v)
  then have nt: "False = (\<exists>e. out = Throw e)"
    by simp
  have "?A \<or> (\<exists>rr. \<not> awaits_stage (step (Settle r out) c) r \<and>
       log (step (Settle r out) c) = log c @ report r n False (eng c) @ [Resolved r rr] \<and>
       items (eng (step (Settle r out) c)) = [])"
  proof (cases "ci = 0")
    case True
    with assms Return have "step (Settle r out) c = loop_inner r n 0 cb (or_empty v) c"
      by simp
    with loop_inner_0_effect [of r n cb "or_empty v" c] show ?thesis
      by (metis (no_types, lifting))
  next
    case False
    with assms Return have "step (Settle r out) c = loop_outer r n (or_empty v) c"
      by simp
    with loop_outer_effect [of r n "or_empty v" c] show ?thesis
      by (metis (no_types, lifting))
  qed
  then show ?thesis
  proof
    assume ?A
    then show ?thesis ..
  next
    assume "\<exists>rr. \<not> awaits_stage (step (Settle r out) c) r \<and>
       log (step (Settle r out) c) = log c @ report r n False (eng c) @ [Resolved r rr] \<and>
       items (eng (step (Settle r out) c)) = []"
    then obtain rr where f: "\<not> awaits_stage (step (Settle r out) c) r"
      "log (step (Settle r out) c) = log c @ report r n False (eng c) @ [Resolved r rr]"
      "items (eng (step (Settle r out) c)) = []"
      by blast
    have ?B
      by (rule exI [of _ False], rule exI [of _ rr], intro conjI, rule f(1), rule f(2),
          rule nt, rule f(3))
    then show ?thesis ..
  qed
qed








lemma live_feed_start_eq:
  "live_feed_start =
     \<lparr>eng = \<lparr>nth_t = 0, index = 0, callbackIndex = 0, running = False, current = None,
              items = [1, 2], callbacks = [], onDone = Some ''onDone'',
              onError = Some ''onError'', blocking = True\<rparr>,
      pool = (\<lambda>_. None), next_rid = 0, log = []\<rparr>"
  by (simp add: live_feed_start_def exec_def init_def new_tasq_def add_def done_t_def catch_t_def)

lemmas eval_simps =
  exec_def add_def clear_def clear_priv_def run_eq_runAsync runAsync_accepted runAsync_dropped
  loop_outer_eq loop_inner_0_eq or_empty_def report_def handler_def awaits_stage_def
  new_events_def


section \<open>Blocking mode: one run at a time\<close>

lemma awaits_stage_await [simp]:
  "awaits_stage (await_stage r n ci cb p c) r' \<longleftrightarrow> r' = r \<or> awaits_stage c r'"
  by (simp add: awaits_stage_def)

lemma awaits_stage_finally_iff [simp]:
  "awaits_stage (finally_t r n e d c) r' \<longleftrightarrow> r' \<noteq> r \<and> awaits_stage c r'"
  by (simp add: awaits_stage_def split: option.splits)

lemma awaits_stage_eng_update [simp]: "awaits_stage (c\<lparr>eng := s\<rparr>) r = awaits_stage c r"
  by (simp add: awaits_stage_def)

lemma awaits_stage_next_rid_update [simp]: "awaits_stage (c\<lparr>next_rid := k\<rparr>) r = awaits_stage c r"
  by (simp add: awaits_stage_def)

lemma awaits_stage_log_update [simp]: "awaits_stage (c\<lparr>log := l\<rparr>) r = awaits_stage c r"
  by (simp add: awaits_stage_def)

lemma awaits_stage_finish_settled [simp]:
  "awaits_stage (finish_settled r d out c) r' \<longleftrightarrow> r' \<noteq> r \<and> awaits_stage c r'"
  by (simp add: awaits_stage_def)

lemma single_run_same:
  assumes "single_run c" and "\<And>r. awaits_stage c' r = awaits_stage c r"
    and "running (eng c') = running (eng c)"
    and "index (eng c') = index (eng c) \<or> index (eng c') = 0"
  shows "single_run c'"
  using assms unfolding single_run_def by metis

lemma single_run_only:
  assumes "\<And>r'. awaits_stage c' r' \<longleftrightarrow> r' = r" and "running (eng c')"
  shows "single_run c'"
  using assms unfolding single_run_def by metis

lemma single_run_none:
  assumes "\<And>r'. \<not> awaits_stage c' r'" and "\<not> running (eng c')" and "index (eng c') = 0"
  shows "single_run c'"
  using assms unfolding single_run_def by metis

lemma single_run_finally:
  assumes "\<forall>r'. awaits_stage c r' \<longrightarrow> r' = r"
  shows "single_run (finally_t r n e d c)"
  using assms by (intro single_run_none) auto

lemma single_run_await:
  assumes "\<forall>r'. awaits_stage c r' \<longrightarrow> r' = r" and "running s"
  shows "single_run (await_stage r n ci cb p (c\<lparr>eng := s\<rparr>))"
  using assms by (intro single_run_only [of _ r]) auto

lemma single_run_loop_outer:
  assumes "\<forall>r'. awaits_stage c r' \<longrightarrow> r' = r" and "running (eng c)"
  shows "single_run (loop_outer r n res c)"
proof -
  have f: "single_run (finally_t r n None False (c\<lparr>eng := s\<rparr>))" for s
    using assms(1) by (intro single_run_finally) simp
  from f [of "eng c"] have f0: "single_run (finally_t r n None False c)"
    by simp
  show ?thesis
    using assms f f0 by (simp add: loop_outer_eq single_run_await)
qed

lemma single_run_loop_inner_0:
  assumes "\<forall>r'. awaits_stage c r' \<longrightarrow> r' = r" and "running (eng c)"
  shows "single_run (loop_inner r n 0 cb res c)"
  using assms single_run_loop_outer [OF assms, of n res]
  by (simp add: loop_inner_0_eq single_run_await)

lemma single_run_step:
  assumes "single_run c" and "blocking (eng c)"
  shows "single_run (step cmd c) \<and> blocking (eng (step cmd c))"
proof (cases cmd)
  case (Settle r out)
  show ?thesis
  proof (cases "pool c r")
    case None
    with Settle assms show ?thesis by simp
  next
    case (Some f)
    show ?thesis
    proof (cases f)
      case (AwaitFinish d)
      with Some have "\<not> awaits_stage c r"
        by (simp add: awaits_stage_def)
      then have "awaits_stage (finish_settled r d out c) r' = awaits_stage c r'" for r'
        by auto
      from single_run_same [OF assms(1) this] Some AwaitFinish Settle assms(2) show ?thesis
        by simp
    next
      case (AwaitStage n ci cb)
      with Some have a: "awaits_stage c r"
        by (simp add: awaits_stage_def)
      with assms(1) have u: "\<forall>r'. awaits_stage c r' \<longrightarrow> r' = r" and run: "running (eng c)"
        unfolding single_run_def by metis+
      show ?thesis
      proof (cases out)
        case (Throw e)
        with Some AwaitStage Settle assms(2) single_run_finally [OF u, of n "Some e" True]
        show ?thesis by simp
      next
        case (Return v)
        have b: "blocking (eng (loop_outer r n (or_empty v) c))"
          "blocking (eng (loop_inner r n 0 cb (or_empty v) c))"
          using assms(2) by (simp_all add: loop_outer_eq loop_inner_0_eq)
        with Return Some AwaitStage Settle show ?thesis
          using single_run_loop_outer [OF u run, of n "or_empty v"]
            single_run_loop_inner_0 [OF u run, of n cb "or_empty v"]
          by (cases "ci = 0") simp_all
      qed
    qed
  qed
next
  case (Run cbs)
  then have st: "step cmd c = runAsync cbs c"
    by (simp add: run_eq_runAsync)
  show ?thesis
  proof (cases "running (eng c)")
    case True
    have "single_run (runAsync cbs c)"
      using True assms(2) by (intro single_run_same [OF assms(1)]) (simp_all add: runAsync_dropped)
    with True assms(2) show ?thesis
      by (simp add: st runAsync_dropped)
  next
    case False
    with assms(1) have n: "\<forall>r'. awaits_stage c r' \<longrightarrow> r' = next_rid c"
      unfolding single_run_def by metis
    let ?c1 = "c\<lparr>next_rid := next_rid c + 1,
          eng := (eng c)\<lparr>callbacks := (if cbs = [] then callbacks (eng c) else cbs),
                          callbackIndex := 0, nth_t := nth_t (eng c) + 1, running := True\<rparr>\<rparr>"
    have "single_run (loop_outer (next_rid c) (nth_t (eng c) + 1)
       \<lparr>data = None, break = (length (items (eng c)) \<le> index (eng c))\<rparr> ?c1)"
      using n by (intro single_run_loop_outer) simp_all
    with False assms(2) show ?thesis
      by (simp add: st runAsync_accepted loop_outer_eq)
  qed
next
  case (RunAsync cbs)
  then have st: "step cmd c = runAsync cbs c"
    by simp
  show ?thesis
  proof (cases "running (eng c)")
    case True
    have "single_run (runAsync cbs c)"
      using True assms(2) by (intro single_run_same [OF assms(1)]) (simp_all add: runAsync_dropped)
    with True assms(2) show ?thesis
      by (simp add: st runAsync_dropped)
  next
    case False
    with assms(1) have n: "\<forall>r'. awaits_stage c r' \<longrightarrow> r' = next_rid c"
      unfolding single_run_def by metis
    let ?c1 = "c\<lparr>next_rid := next_rid c + 1,
          eng := (eng c)\<lparr>callbacks := (if cbs = [] then callbacks (eng c) else cbs),
                          callbackIndex := 0, nth_t := nth_t (eng c) + 1, running := True\<rparr>\<rparr>"
    have "single_run (loop_outer (next_rid c) (nth_t (eng c) + 1)
       \<lparr>data = None, break = (length (items (eng c)) \<le> index (eng c))\<rparr> ?c1)"
      using n by (intro single_run_loop_outer) simp_all
    with False assms(2) show ?thesis
      by (simp add: st runAsync_accepted loop_outer_eq)
  qed
next
  case (Add xs)
  with assms(2) single_run_same [OF assms(1), of "step cmd c"] show ?thesis
    by (simp add: add_def)
next
  case Clear
  with assms(2) single_run_same [OF assms(1), of "step cmd c"] show ?thesis
    by (simp add: clear_def clear_priv_def Let_def)
next
  case (Do cb cbs)
  with assms(2) single_run_same [OF assms(1), of "step cmd c"] show ?thesis
    by (simp add: do_t_def)
next
  case (Done h)
  with assms(2) single_run_same [OF assms(1), of "step cmd c"] show ?thesis
    by (simp add: done_t_def)
next
  case (Catch h)
  with assms(2) single_run_same [OF assms(1), of "step cmd c"] show ?thesis
    by (simp add: catch_t_def)
qed

lemma single_run_exec:
  "single_run c \<Longrightarrow> blocking (eng c) \<Longrightarrow> single_run (exec cmds c) \<and> blocking (eng (exec cmds c))"
proof (induction cmds arbitrary: c)
  case Nil
  then show ?case by (simp add: exec_def)
next
  case (Cons cmd cmds)
  from single_run_step [OF Cons.prems, of cmd] Cons.IH [of "step cmd c"] show ?case
    by (simp add: exec_def)
qed

lemma single_run_reachable:
  "opt \<noteq> Some False \<Longrightarrow> single_run (exec cmds (init opt)) \<and> blocking (eng (exec cmds (init opt)))"
proof -
  assume "opt \<noteq> Some False"
  then have "single_run (init opt)" "blocking (eng (init opt))"
    by (auto simp: single_run_def init_def new_tasq_def awaits_stage_def split: option.splits)
  then show ?thesis
    by (rule single_run_exec)
qed

lemma polled_append [simp]: "polled (xs @ ys) = polled xs @ polled ys"
  by (induction xs rule: polled.induct) (simp_all split: payload.splits)

lemma adds_append [simp]: "adds (xs @ ys) = adds xs @ adds ys"
  by (induction xs rule: adds.induct) simp_all

lemma exec_next_rid_mono: "next_rid c \<le> next_rid (exec cmds c)"
proof (induction cmds arbitrary: c)
  case Nil
  then show ?case by (simp add: exec_def)
next
  case (Cons cmd cmds)
  have "next_rid c \<le> next_rid (step cmd c)"
    by (simp add: step_next_rid)
  also have "\<dots> \<le> next_rid (exec cmds (step cmd c))"
    by (rule Cons.IH)
  finally show ?case by (simp add: exec_Cons)
qed

lemma run_live_start:
  assumes "blocking (eng c0)" "\<not> running (eng c0)" "index (eng c0) = 0"
    and "awaits_stage (runAsync cbs c0) (next_rid c0)"
  shows "run_live c0 (next_rid c0) [] (runAsync cbs c0)"
proof -
  let ?regs = "if cbs = [] then callbacks (eng c0) else cbs"
  have ne: "items (eng c0) \<noteq> []" "?regs \<noteq> []"
    using assms by (auto simp: runAsync_accepted loop_outer_eq split: if_splits)
  then have t: "take (Suc 0) (items (eng c0)) = [items (eng c0) ! 0]"
    by (cases "items (eng c0)") simp_all
  show ?thesis
    unfolding run_live_def using assms ne t
    by (auto simp: runAsync_accepted loop_outer_eq Suc_leI)
qed

lemma settle_live_effect:
  assumes "pool c r = Some (AwaitStage n ci cb)"
    and "awaits_stage (step (Settle r (Return v)) c) r"
  shows "items (eng (step (Settle r (Return v)) c)) = items (eng c) \<and>
         running (eng (step (Settle r (Return v)) c)) = running (eng c) \<and>
         blocking (eng (step (Settle r (Return v)) c)) = blocking (eng c) \<and>
         next_rid (step (Settle r (Return v)) c) = next_rid c \<and>
         ((index (eng c) < length (items (eng c)) \<and>
           index (eng (step (Settle r (Return v)) c)) = Suc (index (eng c)) \<and>
           (\<exists>cb'. log (step (Settle r (Return v)) c) =
              log c @ [StageCall r 0 cb' \<lparr>arg_data = Item (items (eng c) ! index (eng c)),
                                           arg_nth = n\<rparr>])) \<or>
          (index (eng (step (Settle r (Return v)) c)) = index (eng c) \<and>
           (\<exists>ci' cb' d. log (step (Settle r (Return v)) c) =
              log c @ [StageCall r ci' cb' \<lparr>arg_data = Data d, arg_nth = n\<rparr>])))"
proof (cases "ci = 0")
  case True
  with assms show ?thesis
    by (auto simp: loop_inner_0_eq loop_outer_eq split: if_splits)
next
  case False
  with assms show ?thesis
    by (auto simp: loop_outer_eq split: if_splits)
qed

lemma run_liveI:
  assumes "awaits_stage c r" "running (eng c)" "blocking (eng c)" "r < next_rid c"
    "items (eng c) = items (eng c0) @ adds cmds" "index (eng c) \<le> length (items (eng c))"
    "log c = log c0 @ evs" "filter is_report evs = []"
    "filter (\<lambda>ev. event_rid ev \<noteq> r) evs = map (\<lambda>r'. Resolved r' None) [Suc r ..< next_rid c]"
    "polled evs = take (index (eng c)) (items (eng c))"
  shows "run_live c0 r cmds c"
  unfolding run_live_def using assms by blast

lemma run_live_dropped:
  assumes "run_live c0 r cmds c" and "adds (cmds @ [x]) = adds cmds"
  shows "run_live c0 r (cmds @ [x]) (runAsync cbs c)"
proof -
  from assms(1) obtain evs where l:
    "awaits_stage c r" "running (eng c)" "blocking (eng c)" "r < next_rid c"
    "items (eng c) = items (eng c0) @ adds cmds" "index (eng c) \<le> length (items (eng c))"
    "log c = log c0 @ evs" "filter is_report evs = []"
    "filter (\<lambda>ev. event_rid ev \<noteq> r) evs = map (\<lambda>r'. Resolved r' None) [Suc r ..< next_rid c]"
    "polled evs = take (index (eng c)) (items (eng c))"
    unfolding run_live_def by blast
  define c' where "c' = runAsync cbs c"
  have c': "c' = c\<lparr>next_rid := next_rid c + 1,
       eng := (eng c)\<lparr>callbacks := (if cbs = [] then callbacks (eng c) else cbs),
                       callbackIndex := 0\<rparr>,
       log := log c @ [Resolved (next_rid c) None]\<rparr>"
    unfolding c'_def using l(2,3) by (rule runAsync_dropped)
  have u: "[Suc r ..< Suc (next_rid c)] = [Suc r ..< next_rid c] @ [next_rid c]"
    using l(4) by (simp add: Suc_leI)
  have "run_live c0 r (cmds @ [x]) c'"
  proof (rule run_liveI [where evs = "evs @ [Resolved (next_rid c) None]"])
    show "awaits_stage c' r" using l(1) by (simp add: c')
    show "running (eng c')" using l(2) by (simp add: c')
    show "blocking (eng c')" using l(3) by (simp add: c')
    show "r < next_rid c'" using l(4) by (simp add: c')
    show "items (eng c') = items (eng c0) @ adds (cmds @ [x])"
      using l(5) assms(2) by (simp add: c')
    show "index (eng c') \<le> length (items (eng c'))" using l(6) by (simp add: c')
    show "log c' = log c0 @ evs @ [Resolved (next_rid c) None]" using l(7) by (simp add: c')
    show "filter is_report (evs @ [Resolved (next_rid c) None]) = []" using l(8) by simp
    show "filter (\<lambda>ev. event_rid ev \<noteq> r) (evs @ [Resolved (next_rid c) None]) =
        map (\<lambda>r'. Resolved r' None) [Suc r ..< next_rid c']"
      using l(4,9) u by (simp add: c')
    show "polled (evs @ [Resolved (next_rid c) None]) = take (index (eng c')) (items (eng c'))"
      using l(10) by (simp add: c')
  qed
  then show ?thesis by (simp add: c'_def)
qed

lemma run_live_step:
  assumes "run_live c0 r cmds c" and "reentrant r x" and "awaits_stage (step x c) r"
  shows "run_live c0 r (cmds @ [x]) (step x c)"
proof (cases x)
  case (Add xs)
  with assms(1) show ?thesis
    unfolding run_live_def by (auto simp: add_def)
next
  case (Run cbs)
  with run_live_dropped [OF assms(1), of x cbs] show ?thesis
    by (simp add: run_eq_runAsync)
next
  case (RunAsync cbs)
  with run_live_dropped [OF assms(1), of x cbs] show ?thesis
    by simp
next
  case (Settle r' out)
  with assms(2) obtain v where x: "x = Settle r (Return v)"
    by (cases out) simp_all
  from assms(1) obtain evs where l:
    "awaits_stage c r" "running (eng c)" "blocking (eng c)" "r < next_rid c"
    "items (eng c) = items (eng c0) @ adds cmds" "index (eng c) \<le> length (items (eng c))"
    "log c = log c0 @ evs" "filter is_report evs = []"
    "filter (\<lambda>ev. event_rid ev \<noteq> r) evs = map (\<lambda>r'. Resolved r' None) [Suc r ..< next_rid c]"
    "polled evs = take (index (eng c)) (items (eng c))"
    unfolding run_live_def by blast
  from l(1) obtain n ci cb where f: "pool c r = Some (AwaitStage n ci cb)"
    by (auto simp: awaits_stage_def split: option.splits frame.splits)
  define c' where "c' = step (Settle r (Return v)) c"
  from assms(3) x have a: "awaits_stage c' r"
    by (simp add: c'_def)
  from settle_live_effect [OF f a [unfolded c'_def], folded c'_def] have same:
    "items (eng c') = items (eng c)" "running (eng c') = running (eng c)"
    "blocking (eng c') = blocking (eng c)" "next_rid c' = next_rid c"
    and alt: "(index (eng c) < length (items (eng c)) \<and>
           index (eng c') = Suc (index (eng c)) \<and>
           (\<exists>cb'. log c' =
              log c @ [StageCall r 0 cb' \<lparr>arg_data = Item (items (eng c) ! index (eng c)),
                                           arg_nth = n\<rparr>])) \<or>
          (index (eng c') = index (eng c) \<and>
           (\<exists>ci' cb' d. log c' =
              log c @ [StageCall r ci' cb' \<lparr>arg_data = Data d, arg_nth = n\<rparr>]))"
    by blast+
  have ad: "adds (cmds @ [x]) = adds cmds"
    by (simp add: x)
  from alt have "run_live c0 r (cmds @ [x]) c'"
  proof (elim disjE conjE exE)
    fix cb'
    assume p: "index (eng c) < length (items (eng c))" "index (eng c') = Suc (index (eng c))"
      "log c' = log c @ [StageCall r 0 cb' \<lparr>arg_data = Item (items (eng c) ! index (eng c)),
                                           arg_nth = n\<rparr>]"
    show ?thesis
    proof (rule run_liveI [where evs = "evs @ [StageCall r 0 cb'
          \<lparr>arg_data = Item (items (eng c) ! index (eng c)), arg_nth = n\<rparr>]"])
      show "polled (evs @ [StageCall r 0 cb'
          \<lparr>arg_data = Item (items (eng c) ! index (eng c)), arg_nth = n\<rparr>]) =
          take (index (eng c')) (items (eng c'))"
        using p(1,2) l(10) by (simp add: same take_Suc_conv_app_nth)
    qed (use a l p ad in \<open>simp_all add: same\<close>)
  next
    fix ci' cb' d
    assume p: "index (eng c') = index (eng c)"
      "log c' = log c @ [StageCall r ci' cb' \<lparr>arg_data = Data d, arg_nth = n\<rparr>]"
    show ?thesis
    proof (rule run_liveI [where evs = "evs @ [StageCall r ci' cb'
          \<lparr>arg_data = Data d, arg_nth = n\<rparr>]"])
    qed (use a l p ad in \<open>simp_all add: same\<close>)
  qed
  with x show ?thesis by (simp add: c'_def)
qed (use assms(2) in simp_all)

lemma run_live_trace:
  assumes "blocking (eng c0)" "\<not> running (eng c0)" "index (eng c0) = 0"
    and "\<forall>cmd\<in>set cmds. reentrant (next_rid c0) cmd"
    and "awaits_stage (exec cmds (runAsync cbs c0)) (next_rid c0)"
  shows "run_live c0 (next_rid c0) cmds (exec cmds (runAsync cbs c0))"
  using assms(4,5)
proof (induction cmds rule: rev_induct)
  case Nil
  then show ?case
    using run_live_start [OF assms(1-3), of cbs] by (simp add: exec_def)
next
  case (snoc x cmds)
  let ?c = "exec cmds (runAsync cbs c0)"
  have lt: "next_rid c0 < next_rid ?c"
    using exec_next_rid_mono [of "runAsync cbs c0" cmds] by (simp add: runAsync_frame)
  from snoc.prems have a': "awaits_stage (step x ?c) (next_rid c0)"
    by (simp add: exec_snoc)
  have a: "awaits_stage ?c (next_rid c0)"
  proof (rule ccontr)
    assume "\<not> awaits_stage ?c (next_rid c0)"
    from finalized_step [OF lt this, of x] a' show False
      by simp
  qed
  from snoc.prems snoc.IH a have "run_live c0 (next_rid c0) cmds ?c"
    by simp
  from run_live_step [OF this _ a'] snoc.prems show ?case
    by (simp add: exec_snoc)
qed

lemma exec_append: "exec (xs @ ys) c = exec ys (exec xs c)"
  by (simp add: exec_def)

lemma length_report: "length (report r n d s) \<le> 1"
  by (simp add: report_def split: option.splits)

lemma blocking_reentry_dropped:
  assumes "c = exec pre (init opt)"
    and "running (eng c)" and "blocking (eng c)"
    and "c' = runAsync cbs c"
  shows "new_events c c' = [Resolved (next_rid c) None] \<and>
         pool c' = pool c \<and>
         index (eng c') = index (eng c) \<and> items (eng c') = items (eng c) \<and>
         current (eng c') = current (eng c) \<and>
         events_of (next_rid c) (log (exec post c')) = [Resolved (next_rid c) None]"
proof -
  have "inv c"
    using assms(1) by (simp add: inv_reachable)
  then have fresh: "pool c (next_rid c) = None" "events_of (next_rid c) (log c) = []"
    by (auto simp: inv_def events_of_def filter_empty_conv)
  have dead: "next_rid c < next_rid c'" "pool c' (next_rid c) = None"
    using assms(2,3) fresh by (simp_all add: assms(4) runAsync_dropped)
  have "events_of (next_rid c) (log (exec post c')) = events_of (next_rid c) (log c')"
    using dead_exec [OF dead, of post] by simp
  also have "\<dots> = [Resolved (next_rid c) None]"
    using assms(2,3) fresh by (simp add: assms(4) runAsync_dropped events_of_def)
  finally show ?thesis
    using assms(2,3) by (simp add: assms(4) runAsync_dropped)
qed

lemma exec_log_prefix: "\<exists>evs. log (exec cmds c) = log c @ evs"
proof (induction cmds arbitrary: c)
  case Nil
  then show ?case by (simp add: exec_def)
next
  case (Cons cmd cmds)
  from step_log [of cmd c] obtain e1 where "log (step cmd c) = log c @ e1"
    by blast
  moreover from Cons.IH [of "step cmd c"] obtain e2 where
    "log (exec cmds (step cmd c)) = log (step cmd c) @ e2"
    by blast
  ultimately show ?case
    by (simp add: exec_Cons)
qed

section \<open>The example of the README\<close>

text \<open>The README runs four callbacks over \<^verbatim>\<open>add(1, 2)\<close>, calls \<^verbatim>\<open>add(4, 5).run()\<close> and then
  \<^verbatim>\<open>add(6).run()\<close> while the second callback waits, and prints: input 1, input 2, last 2,
  input 4, input 5, last 5, input 6, last 6, finished, done [1, 2, 4, 5, 6]. The model makes
  the same calls in the same order (the two later calls of \<^verbatim>\<open>run\<close> resolve with
  \<^verbatim>\<open>undefined\<close>).\<close>

lemma readme_example:
  "log (exec
     [Add [1, 2], Run [''input'', ''last'', ''finished'', ''unreached''], Done ''done'',
      Settle 0 (Return (Some \<lparr>data = Some 1, break = False\<rparr>)),
      Settle 0 (Return (Some \<lparr>data = Some 2, break = False\<rparr>)),
      Add [4, 5], Run [],
      Settle 0 (Return None),
      Settle 0 (Return (Some \<lparr>data = Some 4, break = False\<rparr>)),
      Settle 0 (Return (Some \<lparr>data = Some 5, break = False\<rparr>)),
      Add [6], Run [],
      Settle 0 (Return None),
      Settle 0 (Return (Some \<lparr>data = Some 6, break = False\<rparr>)),
      Settle 0 (Return None),
      Settle 0 (Return (Some \<lparr>data = None, break = True\<rparr>))]
     (init None :: (nat, nat, string, string) config)) =
   [StageCall 0 0 ''input'' \<lparr>arg_data = Item 1, arg_nth = 1\<rparr>,
    StageCall 0 0 ''input'' \<lparr>arg_data = Item 2, arg_nth = 1\<rparr>,
    StageCall 0 1 ''last'' \<lparr>arg_data = Data (Some 2), arg_nth = 1\<rparr>,
    Resolved 1 None,
    StageCall 0 0 ''input'' \<lparr>arg_data = Item 4, arg_nth = 1\<rparr>,
    StageCall 0 0 ''input'' \<lparr>arg_data = Item 5, arg_nth = 1\<rparr>,
    StageCall 0 1 ''last'' \<lparr>arg_data = Data (Some 5), arg_nth = 1\<rparr>,
    Resolved 2 None,
    StageCall 0 0 ''input'' \<lparr>arg_data = Item 6, arg_nth = 1\<rparr>,
    StageCall 0 1 ''last'' \<lparr>arg_data = Data (Some 6), arg_nth = 1\<rparr>,
    StageCall 0 2 ''finished'' \<lparr>arg_data = Data None, arg_nth = 1\<rparr>,
    DoneCall 0 ''done'' \<lparr>dr_nth = 1, dr_items = [1, 2, 4, 5, 6]\<rparr>,
    Resolved 0 (Some \<lparr>rr_nth = 1, rr_items = [1, 2, 4, 5, 6], rr_error = None\<rparr>)]"
  by (simp add: init_def new_tasq_def done_t_def eval_simps)




section \<open>The claims\<close>

text \<open>
  C1. Claim: when a stage callback throws, the error callback is called exactly once for
  that run, with the thrown exception, and the done callback is not called.
  The code does call the error callback exactly once and the done callback never,
  whatever the host does afterwards; but the object it passes never holds the exception:
  line 187 builds \<^verbatim>\<open>errorResult\<close> from \<^verbatim>\<open>doneResult\<close>, \<^verbatim>\<open>index\<close> and \<^verbatim>\<open>callbackIndex\<close> only, and
  the exception reaches nothing but the promise of \<^verbatim>\<open>runAsync\<close>. The theorem states what
  the code does on every reachable configuration in which a stage is awaited and an error
  callback is registered; its witness is the run
  \<^verbatim>\<open>new Tasq().add(1, 2).done(onDone).catch(onError).run(s0, s1)\<close> with \<^verbatim>\<open>s0\<close> throwing \<^verbatim>\<open>E\<close>
  on the first item.
\<close>

theorem C1_error_callback_gets_no_exception:
  assumes "c = exec pre (init opt)"
    and "pool c r = Some (AwaitStage n ci cb)"
    and "onError (eng c) = Some h"
    and "c' = step (Settle r (Throw e)) c"
  shows "filter is_report (events_of r (new_events c (exec post c'))) =
           [ErrorCall r h \<lparr>er_nth = n, er_items = items (eng c), er_error = None,
              er_index = int (index (eng c)) - 1, er_callbackIndex = callbackIndex (eng c)\<rparr>] \<and>
         new_events c c' =
           [ErrorCall r h \<lparr>er_nth = n, er_items = items (eng c), er_error = None,
              er_index = int (index (eng c)) - 1, er_callbackIndex = callbackIndex (eng c)\<rparr>,
            Resolved r (Some \<lparr>rr_nth = n, rr_items = items (eng c), rr_error = Some e\<rparr>)]"
proof -
  let ?call = "ErrorCall r h \<lparr>er_nth = n, er_items = items (eng c), er_error = None,
              er_index = int (index (eng c)) - 1, er_callbackIndex = callbackIndex (eng c)\<rparr>"
  let ?res = "Resolved r (Some \<lparr>rr_nth = n, rr_items = items (eng c), rr_error = Some e\<rparr>)"
  have c': "c' = finally_t r n (Some e) True c"
    using assms(2,4) by simp
  then have l: "log c' = log c @ [?call, ?res]"
    using assms(3) by (simp add: report_def)
  have "inv c"
    using assms(1) by (simp add: inv_reachable)
  with assms(2) have "r < next_rid c"
    by (auto simp: inv_def)
  then have quiet: "r < next_rid c'" "\<not> awaits_stage c' r"
    by (simp_all add: c')
  obtain evs where evs: "log (exec post c') = log c' @ evs"
    using exec_log_prefix [of post c'] by blast
  from finalized_exec [OF quiet, of post]
  have "filter is_report (events_of r (log (exec post c'))) = filter is_report (events_of r (log c'))"
    by simp
  then have "filter is_report (events_of r evs) = []"
    by (simp add: evs events_of_def)
  then have "filter is_report (events_of r (new_events c (exec post c'))) = [?call]"
    by (simp add: new_events_def evs l events_of_def)
  moreover have "new_events c c' = [?call, ?res]"
    by (simp add: l)
  ultimately show ?thesis
    by (rule conjI)
qed

theorem C1_witness:
  "pool mid_stage0 0 = Some (AwaitStage 1 0 ''s0'') \<and>
   onError (eng mid_stage0) = Some ''onError'' \<and>
   new_events mid_stage0 (step (Settle 0 (Throw ''E'')) mid_stage0) =
     [ErrorCall 0 ''onError'' \<lparr>er_nth = 1, er_items = [1, 2], er_error = None, er_index = 0,
                               er_callbackIndex = 1\<rparr>,
      Resolved 0 (Some \<lparr>rr_nth = 1, rr_items = [1, 2], rr_error = Some ''E''\<rparr>)] \<and>
   filter is_report (events_of 0 (new_events mid_stage0
     (exec [Settle 0 (Return None), Add [5], Settle 0 (Throw ''F'')]
        (step (Settle 0 (Throw ''E'')) mid_stage0)))) =
     [ErrorCall 0 ''onError'' \<lparr>er_nth = 1, er_items = [1, 2], er_error = None, er_index = 0,
                               er_callbackIndex = 1\<rparr>]"
proof -
  have p: "pool mid_stage0 0 = Some (AwaitStage 1 0 ''s0'')"
    and h: "onError (eng mid_stage0) = Some ''onError''"
    by (simp_all add: mid_stage0_eq)
  have v: "items (eng mid_stage0) = [1, 2]" "int (index (eng mid_stage0)) - 1 = 0"
    "callbackIndex (eng mid_stage0) = 1"
    by (simp_all add: mid_stage0_eq)
  from C1_error_callback_gets_no_exception [OF mid_stage0_def p h refl,
      where e = "''E''" and post = "[Settle 0 (Return None), Add [5], Settle 0 (Throw ''F'')]"] p h
  show ?thesis
    by (simp only: v)
qed

text \<open>
  C2. Claim: if any stage, stage 0 included, returns a result with the break flag set, no
  further stage is called in that run and no further item is fed to stage 0; the items
  not polled are still removed when the run finalizes.
  As stated this fails: the inner loop of line 148 does not look at the flag. After stage 0
  has returned \<^verbatim>\<open>{ break: true }\<close> for the first of two items it is called again with the
  second, and when it returns nothing for that one, stage 1 is called as well.
\<close>

theorem C2_counterexample:
  "log (exec [Add [1, 2], Run [''s0'', ''s1''],
              Settle 0 (Return (Some \<lparr>data = None, break = True\<rparr>)),
              Settle 0 (Return None)]
         (init None :: (nat, nat, string, string) config)) =
   [StageCall 0 0 ''s0'' \<lparr>arg_data = Item 1, arg_nth = 1\<rparr>,
    StageCall 0 0 ''s0'' \<lparr>arg_data = Item 2, arg_nth = 1\<rparr>,
    StageCall 0 1 ''s1'' \<lparr>arg_data = Data None, arg_nth = 1\<rparr>]"
  by (simp add: exec_def init_def new_tasq_def add_def run_eq_runAsync runAsync_accepted
      loop_outer_eq loop_inner_0_eq resume_def or_empty_def)

text \<open>
  C2, amended. A break returned by a later stage, or by stage 0 when no item is left to
  poll, finalizes the run at once: the done callback (if registered) is called with the
  whole backlog, the backlog is emptied, and whatever the host does afterwards, no stage
  is called for that run again. A break returned by stage 0 while an item is left to poll
  does not stop the run: stage 0 is called with the next item.
\<close>

theorem C2_break_ends_run:
  assumes "c = exec pre (init opt)"
    and "pool c r = Some (AwaitStage n ci cb)"
    and "break res"
    and "c' = step (Settle r (Return (Some res))) c"
  shows "if 0 < ci \<or> length (items (eng c)) \<le> index (eng c) then
           new_events c c' =
             report r n False (eng c) @
             [Resolved r (Some \<lparr>rr_nth = n, rr_items = items (eng c), rr_error = None\<rparr>)] \<and>
           filter is_StageCall (events_of r (log (exec post c'))) =
             filter is_StageCall (events_of r (log c)) \<and>
           items (eng c') = [] \<and> index (eng c') = 0
         else
           new_events c c' =
             [StageCall r 0 cb \<lparr>arg_data = Item (items (eng c) ! index (eng c)), arg_nth = n\<rparr>]"
proof (cases "0 < ci \<or> length (items (eng c)) \<le> index (eng c)")
  case True
  with assms(2-4) have c': "c' = finally_t r n None False c"
    by (cases "ci = 0") (auto simp: or_empty_def loop_inner_0_eq loop_outer_eq)
  have "inv c"
    using assms(1) by (simp add: inv_reachable)
  with assms(2) have r: "r < next_rid c"
    by (auto simp: inv_def)
  have quiet: "\<not> awaits_stage c' r" "r < next_rid c'"
    using r by (simp_all add: c' awaits_stage_def split: option.splits)
  have "filter is_StageCall (events_of r (log (exec post c'))) =
        filter is_StageCall (events_of r (log c'))"
    using finalized_exec [OF quiet(2) quiet(1), of post] by simp
  also have "\<dots> = filter is_StageCall (events_of r (log c))"
    by (auto simp: c' events_of_def report_def split: option.splits)
  finally show ?thesis
    using True by (simp add: c')
next
  case False
  with assms(2-4) show ?thesis
    by (auto simp: or_empty_def loop_inner_0_eq)
qed

theorem C2_witness:
  "pool mid_stage1 0 = Some (AwaitStage 1 1 ''s1'') \<and>
   new_events mid_stage1 (step (Settle 0 (Return (Some \<lparr>data = None, break = True\<rparr>))) mid_stage1) =
     [DoneCall 0 ''onDone'' \<lparr>dr_nth = 1, dr_items = [1, 2]\<rparr>,
      Resolved 0 (Some \<lparr>rr_nth = 1, rr_items = [1, 2], rr_error = None\<rparr>)] \<and>
   items (eng (step (Settle 0 (Return (Some \<lparr>data = None, break = True\<rparr>))) mid_stage1)) = [] \<and>
   filter is_StageCall (events_of 0 (log (exec [Settle 0 (Return None), Add [3], Settle 0 (Return None)]
      (step (Settle 0 (Return (Some \<lparr>data = None, break = True\<rparr>))) mid_stage1)))) =
   filter is_StageCall (events_of 0 (log mid_stage1)) \<and>
   pool mid_stage0 0 = Some (AwaitStage 1 0 ''s0'') \<and>
   new_events mid_stage0 (step (Settle 0 (Return (Some \<lparr>data = None, break = True\<rparr>))) mid_stage0) =
     [StageCall 0 0 ''s0'' \<lparr>arg_data = Item 2, arg_nth = 1\<rparr>]"
proof -
  have p: "pool mid_stage1 0 = Some (AwaitStage 1 1 ''s1'')"
    by (simp add: mid_stage1_eq)
  have q: "pool mid_stage0 0 = Some (AwaitStage 1 0 ''s0'')"
    by (simp add: mid_stage0_eq)
  have b: "break \<lparr>data = None :: nat option, break = True\<rparr>"
    by simp
  have v: "items (eng mid_stage0) ! index (eng mid_stage0) = 2"
    "\<not> length (items (eng mid_stage0)) \<le> index (eng mid_stage0)"
    by (simp_all add: mid_stage0_eq)
  show ?thesis
    using C2_break_ends_run [OF mid_stage1_def p b refl,
        of "[Settle 0 (Return None), Add [3], Settle 0 (Return None)]"]
      C2_break_ends_run [OF mid_stage0_def q b refl] p q v
    by (simp add: mid_stage1_eq report_def)
qed

text \<open>
  C3. Claim: the run counter increases monotonically, every accepted run gets a number
  strictly greater than that of every earlier run of the engine, so run numbers are
  unique.
  As stated this fails: \<^verbatim>\<open>finally\<close> resets the counter (line 177), and two runs one after the
  other are both run number 1.
\<close>

theorem C3_counterexample:
  "log (exec [Add [1], Run [''s0''], Settle 0 (Return None),
              Add [2], Run [], Settle 1 (Return None)]
         (init None :: (nat, nat, string, string) config)) =
   [StageCall 0 0 ''s0'' \<lparr>arg_data = Item 1, arg_nth = 1\<rparr>,
    Resolved 0 (Some \<lparr>rr_nth = 1, rr_items = [1], rr_error = None\<rparr>),
    StageCall 1 0 ''s0'' \<lparr>arg_data = Item 2, arg_nth = 1\<rparr>,
    Resolved 1 (Some \<lparr>rr_nth = 1, rr_items = [2], rr_error = None\<rparr>)]"
  by (simp add: exec_def init_def new_tasq_def add_def run_eq_runAsync runAsync_accepted
      loop_outer_eq loop_inner_0_eq resume_def or_empty_def report_def)

text \<open>
  C3, amended. On an engine reached by any schedule, an accepted run is numbered one
  more than the counter, which is 0 whenever no run is marked active: a run accepted
  while no run is active (every accepted run of a blocking engine) is run number 1. Every
  call the run makes at its start carries that number; the counter holds it while the run
  awaits its first stage, and \<^verbatim>\<open>finally\<close> sets the counter back to 0.
\<close>

theorem C3_run_number:
  assumes "c = exec pre (init opt)"
    and "\<not> (running (eng c) \<and> blocking (eng c))"
  shows "new_events c (runAsync cbs c) \<noteq> [] \<and>
         (\<forall>ev\<in>set (new_events c (runAsync cbs c)).
            event_nth ev = Some (if running (eng c) then nth_t (eng c) + 1 else 1)) \<and>
         nth_t (eng (runAsync cbs c)) =
           (if awaits_stage (runAsync cbs c) (next_rid c) then nth_t (eng c) + 1 else 0) \<and>
         nth_t (eng (finally_t r n e d c)) = 0"
proof -
  have "inv c"
    using assms(1) by (simp add: inv_reachable)
  then have idle: "\<not> running (eng c) \<longrightarrow> nth_t (eng c) = 0"
    by (simp add: inv_def)
  from assms(2) have
    "new_events c (runAsync cbs c) \<noteq> [] \<and>
     (\<forall>ev\<in>set (new_events c (runAsync cbs c)). event_nth ev = Some (nth_t (eng c) + 1))"
    by (auto simp: runAsync_accepted loop_outer_eq new_events_def dest: report_nth)
  moreover from assms(2) have "nth_t (eng (runAsync cbs c)) =
           (if awaits_stage (runAsync cbs c) (next_rid c) then nth_t (eng c) + 1 else 0)"
    by (simp add: runAsync_accepted loop_outer_eq)
  ultimately show ?thesis
    using idle by auto
qed

theorem C3_witness:
  "\<not> (running (eng after_first_run) \<and> blocking (eng after_first_run)) \<and>
   new_events after_first_run (runAsync [] after_first_run) =
     [StageCall 1 0 ''s0'' \<lparr>arg_data = Item 2, arg_nth = 1\<rparr>] \<and>
   map event_nth (new_events after_first_run (runAsync [] after_first_run)) = [Some 1]"
proof -
  have a: "\<not> (running (eng after_first_run) \<and> blocking (eng after_first_run))"
    by (simp add: after_first_run_eq)
  have n: "new_events after_first_run (runAsync [] after_first_run) =
     [StageCall 1 0 ''s0'' \<lparr>arg_data = Item 2, arg_nth = 1\<rparr>]"
    by (simp add: after_first_run_eq runAsync_accepted loop_outer_eq)
  have "\<not> running (eng after_first_run)"
    by (simp add: after_first_run_eq)
  with C3_run_number [OF after_first_run_def a, of "[]"] a n show ?thesis
    by simp
qed

text \<open>
  C4. Claim: when a stage throws, the error callback receives the backlog cursor at the
  point of failure and the index of the stage that was executing, with the run number and
  the captured items.
  As stated this fails: when stage 0 (index 0) throws on the first item the cursor is 1,
  and the error callback receives \<^verbatim>\<open>index: 0\<close> (line 179 subtracts one) and
  \<^verbatim>\<open>callbackIndex: 1\<close> (line 180 reads the field that line 145 has already incremented).
\<close>

theorem C4_counterexample:
  "pool mid_stage0 0 = Some (AwaitStage 1 0 ''s0'') \<and>
   int (index (eng mid_stage0)) = 1 \<and>
   new_events mid_stage0 (step (Settle 0 (Throw ''E'')) mid_stage0) =
     [ErrorCall 0 ''onError'' \<lparr>er_nth = 1, er_items = [1, 2], er_error = None,
                               er_index = 0, er_callbackIndex = 1\<rparr>,
      Resolved 0 (Some \<lparr>rr_nth = 1, rr_items = [1, 2], rr_error = Some ''E''\<rparr>)]"
  by (simp add: mid_stage0_eq report_def)

text \<open>
  C4, amended. When a stage throws and an error callback is registered, it is called once
  with the run number of the activation, the backlog as it is at that moment, and the
  backlog cursor minus one (the position of the item polled last).
\<close>

theorem C4_error_result:
  assumes "pool c r = Some (AwaitStage n ci cb)"
    and "onError (eng c) = Some h"
  shows "\<exists>res. filter is_report (new_events c (step (Settle r (Throw e)) c)) = [ErrorCall r h res] \<and>
           er_nth res = n \<and> er_items res = items (eng c) \<and>
           er_index res = int (index (eng c)) - 1"
  using assms by (simp add: report_def)

theorem C4_witness:
  "pool mid_stage1 0 = Some (AwaitStage 1 1 ''s1'') \<and> onError (eng mid_stage1) = Some ''onError'' \<and>
   (\<exists>res. filter is_report (new_events mid_stage1 (step (Settle 0 (Throw ''E'')) mid_stage1)) =
            [ErrorCall 0 ''onError'' res] \<and>
          er_nth res = 1 \<and> er_items res = [1, 2] \<and> er_index res = 1)"
proof -
  have p: "pool mid_stage1 0 = Some (AwaitStage 1 1 ''s1'')"
    and h: "onError (eng mid_stage1) = Some ''onError''"
    by (simp_all add: mid_stage1_eq)
  have "items (eng mid_stage1) = [1, 2]" "int (index (eng mid_stage1)) - 1 = 1"
    by (simp_all add: mid_stage1_eq)
  with C4_error_result [OF p h, of "''E''"] p h show ?thesis
    by simp
qed



text \<open>
  C6. Take an engine in blocking mode (the default) that is idle, start a run, and
  interleave with it any calls of \<^verbatim>\<open>add\<close>, any returns of the stages it awaits and any
  further calls of \<^verbatim>\<open>run\<close> or \<^verbatim>\<open>runAsync\<close>. As long as the run is active, a further call of
  \<^verbatim>\<open>run\<close> or \<^verbatim>\<open>runAsync\<close> calls no callback and resolves at once with \<^verbatim>\<open>undefined\<close>; it
  creates no pending activation, so nothing is ever called on its behalf; it leaves the
  backlog, the cursor and the current item as they are. All that the other calls made
  during the run have done is resolve with \<^verbatim>\<open>undefined\<close>; neither the done nor the error
  callback has been called; stage 0 has been called with exactly the items before the
  cursor, each once and in backlog order; and when the run goes on, at most one call of
  the done or error callback is made.
\<close>

theorem C6_blocking_reentry:
  assumes "opt \<noteq> Some False"
    and "c0 = exec pre (init opt)" and "\<not> running (eng c0)"
    and "list_all (reentrant (next_rid c0)) cmds"
    and "c = exec (Run cbs # cmds) c0"
    and "awaits_stage c (next_rid c0)"
  shows "running (eng c) \<and> blocking (eng c) \<and>
         new_events c (runAsync cbs' c) = [Resolved (next_rid c) None] \<and>
         run cbs' c = runAsync cbs' c \<and>
         pool (runAsync cbs' c) = pool c \<and>
         index (eng (runAsync cbs' c)) = index (eng c) \<and>
         items (eng (runAsync cbs' c)) = items (eng c) \<and>
         current (eng (runAsync cbs' c)) = current (eng c) \<and>
         events_of (next_rid c) (log (exec post (runAsync cbs' c))) = [Resolved (next_rid c) None] \<and>
         filter (\<lambda>ev. event_rid ev \<noteq> next_rid c0) (new_events c0 c) =
           map (\<lambda>r. Resolved r None) [Suc (next_rid c0) ..< next_rid c] \<and>
         filter is_report (new_events c0 c) = [] \<and>
         polled (new_events c0 c) = take (index (eng c)) (items (eng c0) @ adds cmds) \<and>
         length (filter is_report (new_events c0 (step (Settle (next_rid c0) out) c))) \<le> 1"
proof -
  let ?r = "next_rid c0"
  from single_run_reachable [OF assms(1), of pre] assms(2,3)
  have b: "blocking (eng c0)" and i: "index (eng c0) = 0"
    by (simp_all add: single_run_def)
  have c: "c = exec cmds (runAsync cbs c0)"
    by (simp add: assms(5) exec_Cons run_eq_runAsync)
  have re: "\<forall>cmd\<in>set cmds. reentrant ?r cmd"
    using assms(4) by (simp add: list_all_iff)
  from run_live_trace [OF b assms(3) i re assms(6) [unfolded c]]
  have "run_live c0 ?r cmds c"
    by (simp add: c)
  then obtain evs where l:
    "awaits_stage c ?r" "running (eng c)" "blocking (eng c)"
    "items (eng c) = items (eng c0) @ adds cmds"
    "log c = log c0 @ evs" "filter is_report evs = []"
    "filter (\<lambda>ev. event_rid ev \<noteq> ?r) evs = map (\<lambda>r'. Resolved r' None) [Suc ?r ..< next_rid c]"
    "polled evs = take (index (eng c)) (items (eng c))"
    unfolding run_live_def by blast
  have ne: "new_events c0 c = evs"
    using l(5) by (simp add: new_events_def)
  have reach: "c = exec (pre @ Run cbs # cmds) (init opt)"
    by (simp add: assms(2,5) exec_append)
  note d = blocking_reentry_dropped [OF reach l(2,3) refl, of cbs' post]
  from l(1) obtain n ci cb where f: "pool c ?r = Some (AwaitStage n ci cb)"
    by (auto simp: awaits_stage_def split: option.splits frame.splits)
  have one: "length (filter is_report (new_events c0 (step (Settle ?r out) c))) \<le> 1"
    using settle_effect [OF f, of out]
  proof (elim disjE exE conjE)
    fix ci' cb' ev
    assume "log (step (Settle ?r out) c) = log c @ [ev]" "is_StageCall ev"
    then show ?thesis
      using l(5,6) by (cases ev) (simp_all add: new_events_def)
  next
    fix d rr
    assume "log (step (Settle ?r out) c) = log c @ report ?r n d (eng c) @ [Resolved ?r rr]"
    then have "filter is_report (new_events c0 (step (Settle ?r out) c)) = report ?r n d (eng c)"
      using l(5,6) by (simp add: new_events_def)
    then show ?thesis
      by (simp only: length_report)
  qed
  from d l(2,3,4,6,7,8) one show ?thesis
    by (simp add: ne run_eq_runAsync)
qed

theorem C6_witness:
  "\<not> running (eng live_feed_start) \<and>
   list_all (reentrant (next_rid live_feed_start)) reentry_schedule \<and>
   awaits_stage (exec (Run [''s0'', ''s1''] # reentry_schedule) live_feed_start)
     (next_rid live_feed_start) \<and>
   new_events (exec (Run [''s0'', ''s1''] # reentry_schedule) live_feed_start)
     (runAsync [] (exec (Run [''s0'', ''s1''] # reentry_schedule) live_feed_start)) =
     [Resolved 3 None] \<and>
   filter (\<lambda>ev. event_rid ev \<noteq> 0)
     (new_events live_feed_start (exec (Run [''s0'', ''s1''] # reentry_schedule) live_feed_start)) =
     [Resolved 1 None, Resolved 2 None] \<and>
   polled (new_events live_feed_start
     (exec (Run [''s0'', ''s1''] # reentry_schedule) live_feed_start)) = [1, 2, 3]"
proof -
  let ?c = "exec (Run [''s0'', ''s1''] # reentry_schedule) live_feed_start"
  have o: "(None :: bool option) \<noteq> Some False"
    by simp
  have h1: "\<not> running (eng live_feed_start)"
    and h2: "list_all (reentrant (next_rid live_feed_start)) reentry_schedule"
    by (simp_all add: live_feed_start_eq reentry_schedule_def)
  have h3: "awaits_stage ?c (next_rid live_feed_start)"
    by (simp add: live_feed_start_eq reentry_schedule_def eval_simps)
  have v: "next_rid ?c = 3" "index (eng ?c) = 3" "next_rid live_feed_start = 0"
    "items (eng live_feed_start) @ adds reentry_schedule = [1, 2, 3]"
    by (simp_all add: live_feed_start_eq reentry_schedule_def eval_simps)
  have u: "[Suc 0 ..< 3] = [1, 2]"
    by (simp add: upt_rec)
  from C6_blocking_reentry [OF o live_feed_start_def h1 h2 refl h3, of "[]"] h1 h2 h3
  show ?thesis
    by (simp add: v u)
qed

text \<open>
  C7. Every call of \<^verbatim>\<open>run\<close> or \<^verbatim>\<open>runAsync\<close> sets the stage cursor to 0 before the guard of
  line 134: a call that is dropped leaves the cursor at 0 and calls no stage; a call that
  is accepted starts at stage 0 (the only stage it can call before its first \<^verbatim>\<open>await\<close> is
  the first registered callback, after which the cursor is 1).
\<close>

theorem C7_stage_cursor_reset:
  "(running (eng c) \<and> blocking (eng c) \<longrightarrow>
      callbackIndex (eng (runAsync cbs c)) = 0 \<and> callbackIndex (eng (run cbs c)) = 0 \<and>
      filter is_StageCall (new_events c (runAsync cbs c)) = []) \<and>
   (\<not> (running (eng c) \<and> blocking (eng c)) \<longrightarrow>
      (case filter is_StageCall (new_events c (runAsync cbs c)) of
         [] \<Rightarrow> callbackIndex (eng (runAsync cbs c)) = 0
       | ev # evs \<Rightarrow>
           ev = StageCall (next_rid c) 0 (hd (if cbs = [] then callbacks (eng c) else cbs))
                  \<lparr>arg_data = Item (items (eng c) ! index (eng c)), arg_nth = nth_t (eng c) + 1\<rparr>
           \<and> evs = [] \<and> callbackIndex (eng (runAsync cbs c)) = 1))"
  by (auto simp: run_eq_runAsync runAsync_dropped runAsync_accepted loop_outer_eq new_events_def
      report_def hd_conv_nth split: option.splits)

theorem C7_witness:
  "running (eng mid_stage1) \<and> blocking (eng mid_stage1) \<and> callbackIndex (eng mid_stage1) = 2 \<and>
   callbackIndex (eng (runAsync [] mid_stage1)) = 0 \<and>
   callbackIndex (eng (run [''t0''] mid_stage1)) = 0 \<and>
   \<not> (running (eng after_first_run) \<and> blocking (eng after_first_run)) \<and>
   callbackIndex (eng after_first_run) = 1 \<and>
   filter is_StageCall (new_events after_first_run (runAsync [] after_first_run)) =
     [StageCall 1 0 ''s0'' \<lparr>arg_data = Item 2, arg_nth = 1\<rparr>]"
proof -
  have n: "filter is_StageCall (new_events after_first_run (runAsync [] after_first_run)) =
     [StageCall 1 0 ''s0'' \<lparr>arg_data = Item 2, arg_nth = 1\<rparr>]"
    by (simp add: after_first_run_eq runAsync_accepted loop_outer_eq)
  from C7_stage_cursor_reset [of mid_stage1 "[]"] C7_stage_cursor_reset [of mid_stage1 "[''t0'']"]
    C7_stage_cursor_reset [of after_first_run "[]"] n
  show ?thesis
    by (simp add: mid_stage1_eq after_first_run_eq)
qed

text \<open>
  C8. An accepted run whose backlog cursor is at or past the end of the backlog starts
  with a break: it calls no stage, whatever stages are registered, and goes straight to
  the done callback; when the cursor is inside the backlog and a stage is registered, it
  starts with a call of stage 0. In particular \<^verbatim>\<open>run()\<close> with an empty backlog and no
  stage calls the done callback exactly once, with an empty item list.
\<close>

theorem C8_empty_run:
  assumes "\<not> (running (eng c) \<and> blocking (eng c))"
  shows "(length (items (eng c)) \<le> index (eng c) \<longrightarrow>
            new_events c (run cbs c) =
              (case onDone (eng c) of
                 Some h \<Rightarrow> [DoneCall (next_rid c) h
                              \<lparr>dr_nth = nth_t (eng c) + 1, dr_items = items (eng c)\<rparr>]
               | None \<Rightarrow> []) @
              [Resolved (next_rid c)
                 (Some \<lparr>rr_nth = nth_t (eng c) + 1, rr_items = items (eng c), rr_error = None\<rparr>)]) \<and>
         (index (eng c) < length (items (eng c)) \<and> callbacks (eng c) \<noteq> [] \<longrightarrow>
            new_events c (run [] c) =
              [StageCall (next_rid c) 0 (hd (callbacks (eng c)))
                 \<lparr>arg_data = Item (items (eng c) ! index (eng c)), arg_nth = nth_t (eng c) + 1\<rparr>]) \<and>
         (items (eng c) = [] \<and> callbacks (eng c) = [] \<and> onDone (eng c) = Some h \<longrightarrow>
            new_events c (run [] c) =
              [DoneCall (next_rid c) h \<lparr>dr_nth = nth_t (eng c) + 1, dr_items = []\<rparr>,
               Resolved (next_rid c)
                 (Some \<lparr>rr_nth = nth_t (eng c) + 1, rr_items = [], rr_error = None\<rparr>)])"
  using assms
  by (auto simp: run_eq_runAsync runAsync_accepted loop_outer_eq report_def new_events_def
      hd_conv_nth split: option.splits)

theorem C8_witness:
  "\<not> (running (eng (step (Done ''onDone'') (init None :: (nat, nat, string, string) config))) \<and>
      blocking (eng (step (Done ''onDone'') (init None :: (nat, nat, string, string) config)))) \<and>
   new_events (step (Done ''onDone'') (init None :: (nat, nat, string, string) config))
     (run [] (step (Done ''onDone'') (init None))) =
     [DoneCall 0 ''onDone'' \<lparr>dr_nth = 1, dr_items = []\<rparr>,
      Resolved 0 (Some \<lparr>rr_nth = 1, rr_items = [], rr_error = None\<rparr>)] \<and>
   new_events after_first_run (run [] after_first_run) =
     [StageCall 1 0 ''s0'' \<lparr>arg_data = Item 2, arg_nth = 1\<rparr>]"
proof -
  let ?c = "step (Done ''onDone'') (init None :: (nat, nat, string, string) config)"
  have a: "\<not> (running (eng ?c) \<and> blocking (eng ?c))"
    by (simp add: init_def new_tasq_def done_t_def)
  have e: "items (eng ?c) = [] \<and> callbacks (eng ?c) = [] \<and> onDone (eng ?c) = Some ''onDone''"
    "next_rid ?c = 0" "nth_t (eng ?c) = 0"
    by (simp_all add: init_def new_tasq_def done_t_def)
  have b: "\<not> (running (eng after_first_run) \<and> blocking (eng after_first_run))"
    by (simp add: after_first_run_eq)
  from C8_empty_run [OF a, of "[]" "''onDone''"] e C8_empty_run [OF b, of "[]" "''onDone''"] a
  show ?thesis
    by (simp add: after_first_run_eq)
qed

text \<open>
  C9. After \<^verbatim>\<open>finally\<close> has called the done callback (or the error callback, when the run
  ended by an exception), the promise of \<^verbatim>\<open>runAsync\<close> has resolved with the run result; if
  the callback then throws, the only effect is one \<^verbatim>\<open>console.error\<close> whose message names
  the callback ("done" or "error"): the engine state is unchanged and nothing is rejected.
\<close>

theorem C9_handler_exception_caught:
  assumes "handler d (eng c) = Some h"
    and "c' = finally_t r n err d c"
  shows "pool c' r = Some (AwaitFinish d) \<and>
         new_events c c' =
           (if d then
              [ErrorCall r h \<lparr>er_nth = n, er_items = items (eng c), er_error = None,
                 er_index = int (index (eng c)) - 1, er_callbackIndex = callbackIndex (eng c)\<rparr>]
            else [DoneCall r h \<lparr>dr_nth = n, dr_items = items (eng c)\<rparr>]) @
           [Resolved r (Some \<lparr>rr_nth = n, rr_items = items (eng c),
                              rr_error = (if d then err else None)\<rparr>)] \<and>
         step (Settle r (Throw e)) c' =
           c'\<lparr>pool := (pool c')(r := None),
               log := log c' @
                 [ConsoleError r (''[tasq] An error occurred within '' @ [CHR 0x22] @
                    (if d then ''error'' else ''done'') @ [CHR 0x22] @ '' callback.'') e]\<rparr>"
  using assms
  by (simp add: handler_def report_def finish_settled_def console_message_def
      split: if_splits)

theorem C9_witness:
  "handler False (eng mid_stage1) = Some ''onDone'' \<and>
   step (Settle 0 (Return (Some \<lparr>data = None, break = True\<rparr>))) mid_stage1 =
     finally_t 0 1 None False mid_stage1 \<and>
   new_events (finally_t 0 1 None False mid_stage1)
     (step (Settle 0 (Throw ''boom'')) (finally_t 0 1 None False mid_stage1)) =
     [ConsoleError 0 (''[tasq] An error occurred within '' @ [CHR 0x22] @ ''done'' @
                      [CHR 0x22] @ '' callback.'') ''boom''] \<and>
   eng (step (Settle 0 (Throw ''boom'')) (finally_t 0 1 None False mid_stage1)) =
     eng (finally_t 0 1 None False mid_stage1)"
proof -
  have h: "handler False (eng mid_stage1) = Some ''onDone''"
    by (simp add: mid_stage1_eq handler_def)
  have s: "step (Settle 0 (Return (Some \<lparr>data = None, break = True\<rparr>))) mid_stage1 =
     finally_t 0 1 None False mid_stage1"
    by (simp add: mid_stage1_eq or_empty_def loop_outer_eq)
  from C9_handler_exception_caught [OF h refl, of 0 1 None "''boom''"] h s show ?thesis
    by (simp add: new_events_def)
qed



end
